theory Spec2Isabelle
  imports Main
begin

section \<open>Data model of the dependency engine (memorysafety.cpp)\<close>

text \<open>
  User objects are identified by their address (\<open>const void*\<close>), an opaque key.
  The engine's own records live on the heap: \<open>Object\<close> records are the nodes of the
  \<open>std::unordered_map\<close>, \<open>Dependency\<close> records are allocated with \<open>new\<close>.
  Both are reached through raw pointers, so the model keeps an explicit store for each and
  a pointer is a key of that store; \<open>nullptr\<close> is \<open>None\<close>.
\<close>

type_synonym addr = nat
type_synonym objptr = nat
type_synonym depptr = nat

record Dependency =
  dep_A :: objptr
  dep_B :: objptr
  content :: bool
  parent :: "depptr option"
  left :: "depptr option"
  right :: "depptr option"
  prev :: "depptr option"
  nxt :: "depptr option"

record Object =
  dependencies :: "depptr option"
  incoming0 :: "depptr option"
  incoming1 :: "depptr option"
  isValid :: bool

text \<open>\<open>incoming[content]\<close>: the array of two list heads is indexed by the kind.\<close>

definition incoming :: "Object \<Rightarrow> bool \<Rightarrow> depptr option" where
  "incoming ob k = (if k then incoming1 ob else incoming0 ob)"

definition set_incoming :: "bool \<Rightarrow> depptr option \<Rightarrow> Object \<Rightarrow> Object" where
  "set_incoming k v ob = (if k then ob\<lparr>incoming1 := v\<rparr> else ob\<lparr>incoming0 := v\<rparr>)"

definition new_Object :: Object where
  "new_Object = \<lparr>dependencies = None, incoming0 = None, incoming1 = None, isValid = True\<rparr>"

text \<open>
  The state of the class \<open>MemorySafety\<close>: the table \<open>lookup\<close> maps an address to its
  node, \<open>objs\<close> and \<open>deps\<close> are the live records, \<open>fresh_obj\<close> and \<open>fresh_dep\<close> are
  the next fresh pointers handed out by the allocator. \<open>reported\<close> lists the arguments of
  the calls made to the violation handler so far (a recording handler that returns, as
  installed with \<open>set_violation_handler\<close>), oldest first.
\<close>

record MemorySafety =
  lookup :: "addr \<rightharpoonup> objptr"
  objs :: "objptr \<rightharpoonup> Object"
  deps :: "depptr \<rightharpoonup> Dependency"
  fresh_obj :: nat
  fresh_dep :: nat
  initialized :: bool
  reported :: "addr list"

text \<open>
  A run either returns the new state, or does not return within the given number of
  nested calls and loop rounds (\<open>OutOfFuel\<close>), or dereferences a pointer to a record that
  is not live (\<open>InvalidPointer\<close>, undefined behaviour in C++).
\<close>

datatype fault = OutOfFuel | InvalidPointer

fun seq :: "fault + 'a \<Rightarrow> ('a \<Rightarrow> fault + 'b) \<Rightarrow> fault + 'b" where
  "seq (Inl e) f = Inl e"
| "seq (Inr x) f = f x"

definition read_dep :: "depptr \<Rightarrow> MemorySafety \<Rightarrow> fault + Dependency" where
  "read_dep d s = (case deps s d of None \<Rightarrow> Inl InvalidPointer | Some r \<Rightarrow> Inr r)"

definition read_obj :: "objptr \<Rightarrow> MemorySafety \<Rightarrow> fault + Object" where
  "read_obj p s = (case objs s p of None \<Rightarrow> Inl InvalidPointer | Some ob \<Rightarrow> Inr ob)"

definition modify_dep ::
  "depptr \<Rightarrow> (Dependency \<Rightarrow> Dependency) \<Rightarrow> MemorySafety \<Rightarrow> fault + MemorySafety" where
  "modify_dep d f s =
     (case deps s d of None \<Rightarrow> Inl InvalidPointer
      | Some r \<Rightarrow> Inr (s\<lparr>deps := (deps s)(d \<mapsto> f r)\<rparr>))"

definition modify_obj ::
  "objptr \<Rightarrow> (Object \<Rightarrow> Object) \<Rightarrow> MemorySafety \<Rightarrow> fault + MemorySafety" where
  "modify_obj p f s =
     (case objs s p of None \<Rightarrow> Inl InvalidPointer
      | Some ob \<Rightarrow> Inr (s\<lparr>objs := (objs s)(p \<mapsto> f ob)\<rparr>))"

text \<open>\<open>delete n\<close>\<close>

definition delete_dep :: "depptr \<Rightarrow> MemorySafety \<Rightarrow> MemorySafety" where
  "delete_dep d s = s\<lparr>deps := (deps s)(d := None)\<rparr>"

section \<open>The intrusive list of incoming dependencies\<close>

text \<open>
  \<open>Dependency::link\<close>:
  \<^verbatim>\<open>prev = nullptr; next = B->incoming[content];
  if (next) next->prev = this; B->incoming[content] = this;\<close>
\<close>

definition link :: "depptr \<Rightarrow> MemorySafety \<Rightarrow> fault + MemorySafety" where
  "link d s =
     seq (modify_dep d (\<lambda>x. x\<lparr>prev := None\<rparr>) s) (\<lambda>s1.
     seq (read_dep d s1) (\<lambda>r.
     seq (read_obj (dep_B r) s1) (\<lambda>b.
     seq (modify_dep d (\<lambda>x. x\<lparr>nxt := incoming b (content r)\<rparr>) s1) (\<lambda>s2.
     seq (case incoming b (content r) of
            Some nx \<Rightarrow> modify_dep nx (\<lambda>x. x\<lparr>prev := Some d\<rparr>) s2
          | None \<Rightarrow> Inr s2) (\<lambda>s3.
     modify_obj (dep_B r) (set_incoming (content r) (Some d)) s3)))))"

text \<open>
  \<open>Dependency::unlink\<close>:
  \<^verbatim>\<open>if (prev) { prev->next = next; } else { B->incoming[content] = next; }
  if (next) next->prev = prev;
  prev = next = nullptr;\<close>
\<close>

definition unlink :: "depptr \<Rightarrow> MemorySafety \<Rightarrow> fault + MemorySafety" where
  "unlink d s =
     seq (read_dep d s) (\<lambda>r.
     seq (case prev r of
            Some pv \<Rightarrow> modify_dep pv (\<lambda>x. x\<lparr>nxt := nxt r\<rparr>) s
          | None \<Rightarrow> modify_obj (dep_B r) (set_incoming (content r) (nxt r)) s) (\<lambda>s1.
     seq (case nxt r of
            Some nx \<Rightarrow> modify_dep nx (\<lambda>x. x\<lparr>prev := prev r\<rparr>) s1
          | None \<Rightarrow> Inr s1) (\<lambda>s2.
     modify_dep d (\<lambda>x. x\<lparr>prev := None, nxt := None\<rparr>) s2)))"

section \<open>Invalidation\<close>

text \<open>
  The loop that drops all dependencies at the end of \<open>Object::invalidate\<close>: it rotates
  left children up and unlinks and deletes a node that has none.
\<close>

fun drop_dependencies :: "nat \<Rightarrow> depptr option \<Rightarrow> MemorySafety \<Rightarrow> fault + MemorySafety" where
  "drop_dependencies 0 d s = Inl OutOfFuel"
| "drop_dependencies (Suc n) None s = Inr s"
| "drop_dependencies (Suc n) (Some d) s =
     seq (read_dep d s) (\<lambda>r.
       case left r of
         Some l \<Rightarrow>
           seq (read_dep l s) (\<lambda>lr.
           seq (modify_dep d (\<lambda>x. x\<lparr>left := right lr\<rparr>) s) (\<lambda>s1.
           seq (modify_dep l (\<lambda>x. x\<lparr>right := Some d\<rparr>) s1) (\<lambda>s2.
           drop_dependencies n (Some l) s2)))
       | None \<Rightarrow>
           seq (unlink d s) (\<lambda>s1.
           drop_dependencies n (right r) (delete_dep d s1)))"

text \<open>
  \<open>Object::invalidateIncoming\<close> and \<open>Object::invalidate\<close> call each other.
  \<open>invalidateIncoming_loop n k p\<close> is the loop
  \<^verbatim>\<open>while (incoming[k]) incoming[k]->A->invalidate();\<close> of the object at \<open>p\<close>.
\<close>

fun invalidateIncoming_loop :: "nat \<Rightarrow> bool \<Rightarrow> objptr \<Rightarrow> MemorySafety \<Rightarrow> fault + MemorySafety"
  and invalidateIncoming :: "nat \<Rightarrow> objptr \<Rightarrow> bool \<Rightarrow> MemorySafety \<Rightarrow> fault + MemorySafety"
  and invalidate :: "nat \<Rightarrow> objptr \<Rightarrow> MemorySafety \<Rightarrow> fault + MemorySafety" where
  "invalidateIncoming_loop 0 k p s = Inl OutOfFuel"
| "invalidateIncoming_loop (Suc n) k p s =
     seq (read_obj p s) (\<lambda>ob.
       case incoming ob k of
         None \<Rightarrow> Inr s
       | Some d \<Rightarrow>
           seq (read_dep d s) (\<lambda>r.
           seq (invalidate n (dep_A r) s) (\<lambda>s1.
           invalidateIncoming_loop n k p s1)))"
| "invalidateIncoming 0 p contentOnly s = Inl OutOfFuel"
| "invalidateIncoming (Suc n) p contentOnly s =
     seq (invalidateIncoming_loop n True p s) (\<lambda>s1.
       if \<not> contentOnly then invalidateIncoming_loop n False p s1 else Inr s1)"
| "invalidate 0 p s = Inl OutOfFuel"
| "invalidate (Suc n) p s =
     seq (read_obj p s) (\<lambda>ob.
     seq (if isValid ob
          then seq (modify_obj p (\<lambda>x. x\<lparr>isValid := False\<rparr>) s) (\<lambda>s1.
               invalidateIncoming n p True s1)
          else Inr s) (\<lambda>s2.
     seq (read_obj p s2) (\<lambda>ob2.
     seq (modify_obj p (\<lambda>x. x\<lparr>dependencies := None\<rparr>) s2) (\<lambda>s3.
     drop_dependencies n (dependencies ob2) s3))))"

section \<open>The splay tree of outgoing dependencies\<close>

text \<open>\<open>Object::leftRotate\<close> and \<open>Object::rightRotate\<close> of the object at \<open>p\<close>.\<close>

definition leftRotate :: "objptr \<Rightarrow> depptr \<Rightarrow> MemorySafety \<Rightarrow> fault + MemorySafety" where
  "leftRotate p dep s =
     seq (read_dep dep s) (\<lambda>r.
     seq (case right r of
            Some ov \<Rightarrow>
              seq (read_dep ov s) (\<lambda>orec.
              seq (modify_dep dep (\<lambda>x. x\<lparr>right := left orec\<rparr>) s) (\<lambda>s1.
              seq (read_dep ov s1) (\<lambda>orec1.
              seq (case left orec1 of
                     Some ol \<Rightarrow> modify_dep ol (\<lambda>x. x\<lparr>parent := Some dep\<rparr>) s1
                   | None \<Rightarrow> Inr s1) (\<lambda>s2.
              seq (read_dep dep s2) (\<lambda>r2.
              modify_dep ov (\<lambda>x. x\<lparr>parent := parent r2\<rparr>) s2)))))
          | None \<Rightarrow> Inr s) (\<lambda>s3.
     seq (read_dep dep s3) (\<lambda>r3.
     seq (case parent r3 of
            None \<Rightarrow> modify_obj p (\<lambda>x. x\<lparr>dependencies := right r\<rparr>) s3
          | Some pa \<Rightarrow>
              seq (read_dep pa s3) (\<lambda>pr.
                if Some dep = left pr
                then modify_dep pa (\<lambda>x. x\<lparr>left := right r\<rparr>) s3
                else modify_dep pa (\<lambda>x. x\<lparr>right := right r\<rparr>) s3)) (\<lambda>s4.
     seq (case right r of
            Some ov \<Rightarrow> modify_dep ov (\<lambda>x. x\<lparr>left := Some dep\<rparr>) s4
          | None \<Rightarrow> Inr s4) (\<lambda>s5.
     modify_dep dep (\<lambda>x. x\<lparr>parent := right r\<rparr>) s5)))))"

definition rightRotate :: "objptr \<Rightarrow> depptr \<Rightarrow> MemorySafety \<Rightarrow> fault + MemorySafety" where
  "rightRotate p dep s =
     seq (read_dep dep s) (\<lambda>r.
     seq (case left r of
            Some ov \<Rightarrow>
              seq (read_dep ov s) (\<lambda>orec.
              seq (modify_dep dep (\<lambda>x. x\<lparr>left := right orec\<rparr>) s) (\<lambda>s1.
              seq (read_dep ov s1) (\<lambda>orec1.
              seq (case right orec1 of
                     Some orr \<Rightarrow> modify_dep orr (\<lambda>x. x\<lparr>parent := Some dep\<rparr>) s1
                   | None \<Rightarrow> Inr s1) (\<lambda>s2.
              seq (read_dep dep s2) (\<lambda>r2.
              modify_dep ov (\<lambda>x. x\<lparr>parent := parent r2\<rparr>) s2)))))
          | None \<Rightarrow> Inr s) (\<lambda>s3.
     seq (read_dep dep s3) (\<lambda>r3.
     seq (case parent r3 of
            None \<Rightarrow> modify_obj p (\<lambda>x. x\<lparr>dependencies := left r\<rparr>) s3
          | Some pa \<Rightarrow>
              seq (read_dep pa s3) (\<lambda>pr.
                if Some dep = left pr
                then modify_dep pa (\<lambda>x. x\<lparr>left := left r\<rparr>) s3
                else modify_dep pa (\<lambda>x. x\<lparr>right := left r\<rparr>) s3)) (\<lambda>s4.
     seq (case left r of
            Some ov \<Rightarrow> modify_dep ov (\<lambda>x. x\<lparr>right := Some dep\<rparr>) s4
          | None \<Rightarrow> Inr s4) (\<lambda>s5.
     modify_dep dep (\<lambda>x. x\<lparr>parent := left r\<rparr>) s5)))))"

text \<open>
  \<open>rightRotate(dep->parent)\<close> and \<open>leftRotate(dep->parent)\<close> as the second rotation of a
  double step: \<open>dep->parent\<close> is read again after the first rotation, and the rotation
  dereferences it.
\<close>

definition rightRotate_parent :: "objptr \<Rightarrow> depptr \<Rightarrow> MemorySafety \<Rightarrow> fault + MemorySafety" where
  "rightRotate_parent p dep s =
     seq (read_dep dep s) (\<lambda>r.
       case parent r of None \<Rightarrow> Inl InvalidPointer | Some pa \<Rightarrow> rightRotate p pa s)"

definition leftRotate_parent :: "objptr \<Rightarrow> depptr \<Rightarrow> MemorySafety \<Rightarrow> fault + MemorySafety" where
  "leftRotate_parent p dep s =
     seq (read_dep dep s) (\<lambda>r.
       case parent r of None \<Rightarrow> Inl InvalidPointer | Some pa \<Rightarrow> leftRotate p pa s)"

text \<open>\<open>Object::splay\<close>: one round of \<open>while (dep->parent)\<close> per unit of fuel.\<close>

fun splay :: "nat \<Rightarrow> objptr \<Rightarrow> depptr \<Rightarrow> MemorySafety \<Rightarrow> fault + MemorySafety" where
  "splay 0 p dep s = Inl OutOfFuel"
| "splay (Suc n) p dep s =
     seq (read_dep dep s) (\<lambda>r.
       case parent r of
         None \<Rightarrow> Inr s
       | Some pa \<Rightarrow>
           seq (read_dep pa s) (\<lambda>pr.
           seq (case parent pr of
                  None \<Rightarrow>
                    if left pr = Some dep then rightRotate p pa s else leftRotate p pa s
                | Some g \<Rightarrow>
                    seq (read_dep g s) (\<lambda>gr.
                      if left pr = Some dep \<and> left gr = Some pa
                      then seq (rightRotate p g s) (rightRotate_parent p dep)
                      else if right pr = Some dep \<and> right gr = Some pa
                      then seq (leftRotate p g s) (leftRotate_parent p dep)
                      else if left pr = Some dep \<and> right gr = Some pa
                      then seq (rightRotate p pa s) (leftRotate_parent p dep)
                      else seq (leftRotate p pa s) (rightRotate_parent p dep))) (\<lambda>s1.
           splay n p dep s1)))"

section \<open>Adding a dependency\<close>

text \<open>
  The search loop of \<open>Object::addDependency\<close>, as the source has it:
  \<^verbatim>\<open>while (iter) {
     parent = iter;
     if (target < iter->B) {
     } else if (target > iter->B) {
     } else { ...; return; }
  }\<close>
  Neither of the first two branches changes \<open>iter\<close>. The loop returns the final
  \<open>iter\<close> (the node found, or \<open>nullptr\<close> when the loop ran to its end) and \<open>parent\<close>.
\<close>

fun addDependency_search ::
  "nat \<Rightarrow> objptr \<Rightarrow> depptr option \<Rightarrow> depptr option \<Rightarrow> MemorySafety
     \<Rightarrow> fault + (depptr option \<times> depptr option)" where
  "addDependency_search 0 target iter par s = Inl OutOfFuel"
| "addDependency_search (Suc n) target None par s = Inr (None, par)"
| "addDependency_search (Suc n) target (Some it) par s =
     seq (read_dep it s) (\<lambda>r.
       if target < dep_B r then addDependency_search n target (Some it) (Some it) s
       else if target > dep_B r then addDependency_search n target (Some it) (Some it) s
       else Inr (Some it, Some it))"

definition new_Dependency :: "objptr \<Rightarrow> objptr \<Rightarrow> bool \<Rightarrow> depptr option \<Rightarrow> Dependency" where
  "new_Dependency a target c par =
     \<lparr>dep_A = a, dep_B = target, content = c, parent = par,
      left = None, right = None, prev = None, nxt = None\<rparr>"

text \<open>\<open>new Dependency()\<close> followed by the assignments to its fields.\<close>

definition new_dep :: "Dependency \<Rightarrow> MemorySafety \<Rightarrow> depptr \<times> MemorySafety" where
  "new_dep r s =
     (fresh_dep s, s\<lparr>deps := (deps s)(fresh_dep s \<mapsto> r), fresh_dep := Suc (fresh_dep s)\<rparr>)"

definition Object_addDependency ::
  "nat \<Rightarrow> objptr \<Rightarrow> objptr \<Rightarrow> bool \<Rightarrow> MemorySafety \<Rightarrow> fault + MemorySafety" where
  "Object_addDependency n p target c s =
     seq (read_obj p s) (\<lambda>ob.
     seq (addDependency_search n target (dependencies ob) None s) (\<lambda>(found, par).
       case found of
         Some it \<Rightarrow>
           seq (read_dep it s) (\<lambda>r.
           seq (if c \<and> \<not> content r
                then seq (unlink it s) (\<lambda>s1.
                     seq (modify_dep it (\<lambda>x. x\<lparr>content := True\<rparr>) s1) (\<lambda>s2.
                     link it s2))
                else Inr s) (\<lambda>s3.
           splay n p it s3))
       | None \<Rightarrow>
           (case new_dep (new_Dependency p target c par) s of (d, s1) \<Rightarrow>
              seq (case par of
                     None \<Rightarrow> modify_obj p (\<lambda>x. x\<lparr>dependencies := Some d\<rparr>) s1
                   | Some pa \<Rightarrow>
                       seq (read_dep pa s1) (\<lambda>pr.
                         if target < dep_B pr
                         then modify_dep pa (\<lambda>x. x\<lparr>left := Some d\<rparr>) s1
                         else modify_dep pa (\<lambda>x. x\<lparr>right := Some d\<rparr>) s1)) (\<lambda>s2.
              seq (link d s2) (\<lambda>s3.
              splay n p d s3)))))"

section \<open>The class MemorySafety\<close>

text \<open>The state after the constructor has run on the zero-initialised static object.\<close>

definition MemorySafety_init :: MemorySafety where
  "MemorySafety_init =
     \<lparr>lookup = Map.empty, objs = Map.empty, deps = Map.empty,
      fresh_obj = 0, fresh_dep = 0, initialized = True, reported = []\<rparr>"

text \<open>\<open>lookup[A]\<close>: \<open>operator[]\<close> inserts a default-constructed \<open>Object\<close> when the key is absent.\<close>

definition lookup_or_create :: "addr \<Rightarrow> MemorySafety \<Rightarrow> objptr \<times> MemorySafety" where
  "lookup_or_create A s =
     (case lookup s A of
        Some p \<Rightarrow> (p, s)
      | None \<Rightarrow>
          (fresh_obj s,
           s\<lparr>lookup := (lookup s)(A \<mapsto> fresh_obj s),
             objs := (objs s)(fresh_obj s \<mapsto> new_Object),
             fresh_obj := Suc (fresh_obj s)\<rparr>))"

definition violationHandler :: "addr \<Rightarrow> MemorySafety \<Rightarrow> MemorySafety" where
  "violationHandler A s = s\<lparr>reported := reported s @ [A]\<rparr>"

definition MemorySafety_validate :: "addr \<Rightarrow> MemorySafety \<Rightarrow> fault + MemorySafety" where
  "MemorySafety_validate A s =
     (case lookup s A of
        None \<Rightarrow> Inr s
      | Some p \<Rightarrow>
          seq (read_obj p s) (\<lambda>ob.
            if \<not> isValid ob then Inr (violationHandler A s) else Inr s))"

definition addDependency :: "nat \<Rightarrow> addr \<Rightarrow> addr \<Rightarrow> MemorySafety \<Rightarrow> fault + MemorySafety" where
  "addDependency n A B s =
     (case lookup_or_create A s of (a, s1) \<Rightarrow>
        seq (read_obj a s1) (\<lambda>oa.
          if \<not> isValid oa then Inr s1
          else (case lookup_or_create B s1 of (b, s2) \<Rightarrow>
                  Object_addDependency n a b False s2)))"

definition addContentDependency ::
  "nat \<Rightarrow> addr \<Rightarrow> addr \<Rightarrow> MemorySafety \<Rightarrow> fault + MemorySafety" where
  "addContentDependency n A B s =
     (case lookup_or_create A s of (a, s1) \<Rightarrow>
        seq (read_obj a s1) (\<lambda>oa.
          if \<not> isValid oa then Inr s1
          else (case lookup_or_create B s1 of (b, s2) \<Rightarrow>
                  seq (read_obj b s2) (\<lambda>ob.
                    if \<not> isValid ob then invalidate n a s2
                    else Object_addDependency n a b True s2))))"

definition markModified :: "nat \<Rightarrow> addr \<Rightarrow> MemorySafety \<Rightarrow> fault + MemorySafety" where
  "markModified n B s =
     (case lookup s B of
        None \<Rightarrow> Inr s
      | Some p \<Rightarrow> invalidateIncoming n p True s)"

definition markDestroyed :: "nat \<Rightarrow> addr \<Rightarrow> MemorySafety \<Rightarrow> fault + MemorySafety" where
  "markDestroyed n B s =
     (case lookup s B of
        None \<Rightarrow> Inr s
      | Some p \<Rightarrow>
          seq (invalidateIncoming n p False s) (\<lambda>s1.
            Inr (s1\<lparr>lookup := (lookup s1)(B := None), objs := (objs s1)(p := None)\<rparr>)))"

section \<open>The public operations\<close>

text \<open>Each one is guarded by \<open>logic.isAvailable()\<close>.\<close>

definition validate :: "addr \<Rightarrow> MemorySafety \<Rightarrow> fault + MemorySafety" where
  "validate A s = (if initialized s then MemorySafety_validate A s else Inr s)"

definition add_dependency :: "nat \<Rightarrow> addr \<Rightarrow> addr \<Rightarrow> MemorySafety \<Rightarrow> fault + MemorySafety" where
  "add_dependency n A B s = (if initialized s then addDependency n A B s else Inr s)"

definition add_content_dependency ::
  "nat \<Rightarrow> addr \<Rightarrow> addr \<Rightarrow> MemorySafety \<Rightarrow> fault + MemorySafety" where
  "add_content_dependency n A B s =
     (if initialized s then addContentDependency n A B s else Inr s)"

definition mark_modified :: "nat \<Rightarrow> addr \<Rightarrow> MemorySafety \<Rightarrow> fault + MemorySafety" where
  "mark_modified n B s = (if initialized s then markModified n B s else Inr s)"

definition mark_destroyed :: "nat \<Rightarrow> addr \<Rightarrow> MemorySafety \<Rightarrow> fault + MemorySafety" where
  "mark_destroyed n B s = (if initialized s then markDestroyed n B s else Inr s)"

text \<open>A sequence of calls of the public operations, each with fuel \<open>n\<close>.\<close>

datatype call =
    Validate addr
  | AddDependency addr addr
  | AddContentDependency addr addr
  | MarkModified addr
  | MarkDestroyed addr

fun do_call :: "nat \<Rightarrow> call \<Rightarrow> MemorySafety \<Rightarrow> fault + MemorySafety" where
  "do_call n (Validate A) s = validate A s"
| "do_call n (AddDependency A B) s = add_dependency n A B s"
| "do_call n (AddContentDependency A B) s = add_content_dependency n A B s"
| "do_call n (MarkModified B) s = mark_modified n B s"
| "do_call n (MarkDestroyed B) s = mark_destroyed n B s"

fun run :: "nat \<Rightarrow> call list \<Rightarrow> MemorySafety \<Rightarrow> fault + MemorySafety" where
  "run n [] s = Inr s"
| "run n (c # cs) s = seq (do_call n c s) (run n cs)"

section \<open>Observations on a state\<close>

text \<open>The table has an entry for the address, and the entry's node is live.\<close>

definition has_record :: "MemorySafety \<Rightarrow> addr \<Rightarrow> bool" where
  "has_record s A = (case lookup s A of None \<Rightarrow> False | Some p \<Rightarrow> objs s p \<noteq> None)"

definition has_record_after :: "addr \<Rightarrow> fault + MemorySafety \<Rightarrow> bool" where
  "has_record_after A res = (case res of Inl e \<Rightarrow> False | Inr s \<Rightarrow> has_record s A)"

text \<open>The address is registered and its record has \<open>isValid == false\<close>.\<close>

definition registered_invalid :: "MemorySafety \<Rightarrow> addr \<Rightarrow> bool" where
  "registered_invalid s A =
     (case lookup s A of
        None \<Rightarrow> False
      | Some p \<Rightarrow> (case objs s p of None \<Rightarrow> False | Some ob \<Rightarrow> \<not> isValid ob))"

text \<open>
  An entry of an \<open>unordered_map\<close> owns its node: if the table maps the address, the
  node is live. (The model keeps table and nodes apart, so it has to be said.)
\<close>

definition node_live :: "MemorySafety \<Rightarrow> addr \<Rightarrow> bool" where
  "node_live s A = (case lookup s A of None \<Rightarrow> True | Some p \<Rightarrow> objs s p \<noteq> None)"

section \<open>Relations between the state before and after a call\<close>

text \<open>
  \<open>dep_step\<close>: dependency records are allocated at fresh pointers only, a live record
  keeps its source and its target, and its kind only changes from existence to content.
  \<open>frame\<close>: in addition the table, the set of live object records and the handler log
  are unchanged, and no valid flag changes from false to true.
  \<open>cascade_frame\<close>: in addition no dependency record is allocated, no kind changes, and
  an object's tree root either stays or is cleared.
\<close>

definition dep_step :: "MemorySafety \<Rightarrow> MemorySafety \<Rightarrow> bool" where
  "dep_step s s' \<longleftrightarrow>
     fresh_dep s \<le> fresh_dep s' \<and>
     (\<forall>d. deps s d = None \<longrightarrow> deps s' d \<noteq> None \<longrightarrow> fresh_dep s \<le> d \<and> d < fresh_dep s') \<and>
     (\<forall>d r r'. deps s d = Some r \<longrightarrow> deps s' d = Some r' \<longrightarrow> d < fresh_dep s \<longrightarrow>
        dep_A r' = dep_A r \<and> dep_B r' = dep_B r \<and> (content r \<longrightarrow> content r'))"

definition frame :: "MemorySafety \<Rightarrow> MemorySafety \<Rightarrow> bool" where
  "frame s s' \<longleftrightarrow>
     lookup s' = lookup s \<and> fresh_obj s' = fresh_obj s \<and> initialized s' = initialized s \<and>
     reported s' = reported s \<and>
     (\<forall>p. objs s' p = None \<longleftrightarrow> objs s p = None) \<and>
     (\<forall>p ob ob'. objs s p = Some ob \<longrightarrow> objs s' p = Some ob' \<longrightarrow> isValid ob' \<longrightarrow> isValid ob) \<and>
     dep_step s s'"

definition cascade_frame :: "MemorySafety \<Rightarrow> MemorySafety \<Rightarrow> bool" where
  "cascade_frame s s' \<longleftrightarrow>
     frame s s' \<and> fresh_dep s' = fresh_dep s \<and>
     (\<forall>d. deps s d = None \<longrightarrow> deps s' d = None) \<and>
     (\<forall>d r r'. deps s d = Some r \<longrightarrow> deps s' d = Some r' \<longrightarrow>
        dep_A r' = dep_A r \<and> dep_B r' = dep_B r \<and> content r' = content r) \<and>
     (\<forall>p ob ob'. objs s p = Some ob \<longrightarrow> objs s' p = Some ob' \<longrightarrow>
        dependencies ob' = dependencies ob \<or> dependencies ob' = None)"

text \<open>
  \<open>pres R f\<close>: whenever \<open>f\<close> returns, the states before and after are related by \<open>R\<close>.
\<close>

definition pres :: "(MemorySafety \<Rightarrow> MemorySafety \<Rightarrow> bool) \<Rightarrow> (MemorySafety \<Rightarrow> fault + MemorySafety) \<Rightarrow> bool" where
  "pres R f \<longleftrightarrow> (\<forall>s s'. f s = Inr s' \<longrightarrow> R s s')"

definition preorder_rel :: "(MemorySafety \<Rightarrow> MemorySafety \<Rightarrow> bool) \<Rightarrow> bool" where
  "preorder_rel R \<longleftrightarrow> (\<forall>s. R s s) \<and> (\<forall>a b c. R a b \<longrightarrow> R b c \<longrightarrow> R a c)"

section \<open>Well-formed registries\<close>

text \<open>
  The intrusive doubly linked list of a target: \<open>dll h pv ds hp\<close> says that, in the
  store \<open>h\<close> of Dependency records, following \<open>next\<close> from the head pointer \<open>hp\<close> visits
  exactly the records \<open>ds\<close>, in this order, each one live and with \<open>prev\<close> pointing to
  its predecessor (\<open>pv\<close> for the first). \<open>on_list h hp d\<close> says that following
  \<open>next\<close> from \<open>hp\<close> reaches \<open>d\<close>.
\<close>

fun dll :: "(depptr \<rightharpoonup> Dependency) \<Rightarrow> depptr option \<Rightarrow> depptr list \<Rightarrow> depptr option \<Rightarrow> bool" where
  "dll h pv [] hp \<longleftrightarrow> hp = None"
| "dll h pv (d # ds) hp \<longleftrightarrow>
     hp = Some d \<and> (case h d of None \<Rightarrow> False
                     | Some r \<Rightarrow> prev r = pv \<and> dll h (Some d) ds (nxt r))"


text \<open>
  What \<open>Dependency::unlink\<close> of the record \<open>d\<close> (with fields \<open>r\<close>) and
  \<open>Dependency::link\<close> of \<open>d\<close> in front of the head \<open>hp\<close> do to the \<open>prev\<close> and \<open>next\<close>
  fields of the store, written as one function; used to describe the result of the
  two operations.
\<close>

definition unlink_heap ::
  "Dependency \<Rightarrow> depptr \<Rightarrow> (depptr \<rightharpoonup> Dependency) \<Rightarrow> (depptr \<rightharpoonup> Dependency)" where
  "unlink_heap r d h = (\<lambda>z. case h z of None \<Rightarrow> None
      | Some rz \<Rightarrow> Some (rz\<lparr>prev := (if z = d then None else if nxt r = Some z then prev r else prev rz),
                           nxt := (if z = d then None else if prev r = Some z then nxt r else nxt rz)\<rparr>))"

definition link_heap ::
  "depptr \<Rightarrow> depptr option \<Rightarrow> (depptr \<rightharpoonup> Dependency) \<Rightarrow> (depptr \<rightharpoonup> Dependency)" where
  "link_heap d hp h = (\<lambda>z. case h z of None \<Rightarrow> None
      | Some rz \<Rightarrow> Some (rz\<lparr>prev := (if z = d then None else if hp = Some z then Some d else prev rz),
                           nxt := (if z = d then hp else nxt rz)\<rparr>))"

text \<open>
  The fields of a record that the list operations leave alone, and the relation
  \<open>links_frame\<close> between two states that differ in list fields only
  (\<open>prev\<close>, \<open>next\<close>, \<open>incoming\<close>).
\<close>

definition obj_core :: "Object \<Rightarrow> depptr option \<times> bool" where
  "obj_core ob = (dependencies ob, isValid ob)"

definition dep_core ::
  "Dependency \<Rightarrow> objptr \<times> objptr \<times> bool \<times> depptr option \<times> depptr option \<times> depptr option" where
  "dep_core r = (dep_A r, dep_B r, content r, parent r, left r, right r)"

definition links_frame :: "MemorySafety \<Rightarrow> MemorySafety \<Rightarrow> bool" where
  "links_frame s s' \<longleftrightarrow>
     lookup s' = lookup s \<and> fresh_obj s' = fresh_obj s \<and> fresh_dep s' = fresh_dep s \<and>
     initialized s' = initialized s \<and> reported s' = reported s \<and>
     (\<forall>p. map_option obj_core (objs s' p) = map_option obj_core (objs s p)) \<and>
     (\<forall>d. map_option dep_core (deps s' d) = map_option dep_core (deps s d))"

definition objs_core_frame :: "MemorySafety \<Rightarrow> MemorySafety \<Rightarrow> bool" where
  "objs_core_frame s s' \<longleftrightarrow> (\<forall>q. map_option obj_core (objs s' q) = map_option obj_core (objs s q))"


text \<open>
  The invariant \<open>wf\<close> of the registry. It holds for the fresh registry and every public
  operation that returns preserves it (lemmas \<open>wf_init\<close>, \<open>wf_do_call\<close>, \<open>wf_run\<close>), so it
  holds in every state that a sequence of calls reaches.

  \<^item> \<open>wf_alloc\<close>: live records lie below the allocation counters, and so do the source
    pointers of Dependency records (a record that was erased is never allocated again).
  \<^item> \<open>wf_registry\<close>: the table maps an address to a live record, and no two addresses to
    the same record.
  \<^item> \<open>wf_tree\<close>: the tree of outgoing dependencies of a live object is a single node
    owned by that object, and a live Dependency whose source is live is the root of its
    source's tree. (The search loop of \<open>Object::addDependency\<close> does not return when the
    tree holds a node with another target, so no returning call adds a second node.)
    The source of a live Dependency may have been erased: \<open>markDestroyed\<close> does not drop
    the outgoing tree.
  \<^item> \<open>wf_lists\<close>, \<open>wf_members\<close>: there are lists \<open>L q k\<close> such that the \<open>incoming[k]\<close>
    field of every live object \<open>q\<close> heads a well-linked doubly linked list of the
    records \<open>L q k\<close>, without repetition, all of them live with target \<open>q\<close> and kind
    \<open>k\<close>; and every live Dependency has a live target and is on the list of its target
    and kind.

  \<open>wf_gen s T X\<close> is the invariant in the middle of an operation: the records in \<open>T\<close> are
  detached from their tree and the records in \<open>X\<close> are off their list. \<open>wf\<close> is
  \<open>wf_gen\<close> with both sets empty.
\<close>

definition wf_alloc :: "MemorySafety \<Rightarrow> bool" where
  "wf_alloc s \<longleftrightarrow> (\<forall>d. deps s d \<noteq> None \<longrightarrow> d < fresh_dep s) \<and>
                 (\<forall>p. objs s p \<noteq> None \<longrightarrow> p < fresh_obj s) \<and>
                 (\<forall>d r. deps s d = Some r \<longrightarrow> dep_A r < fresh_obj s)"

definition wf_registry :: "MemorySafety \<Rightarrow> bool" where
  "wf_registry s \<longleftrightarrow> (\<forall>A p. lookup s A = Some p \<longrightarrow> objs s p \<noteq> None) \<and>
                    (\<forall>A A' p. lookup s A = Some p \<longrightarrow> lookup s A' = Some p \<longrightarrow> A = A')"

definition wf_tree :: "MemorySafety \<Rightarrow> depptr set \<Rightarrow> bool" where
  "wf_tree s T \<longleftrightarrow>
     (\<forall>p ob d. objs s p = Some ob \<longrightarrow> dependencies ob = Some d \<longrightarrow>
        (\<exists>r. deps s d = Some r \<and> dep_A r = p \<and> parent r = None \<and> left r = None \<and>
             right r = None)) \<and>
     (\<forall>d r ob. deps s d = Some r \<longrightarrow> d \<notin> T \<longrightarrow> objs s (dep_A r) = Some ob \<longrightarrow>
        dependencies ob = Some d)"

definition wf_lists :: "MemorySafety \<Rightarrow> (objptr \<Rightarrow> bool \<Rightarrow> depptr list) \<Rightarrow> bool" where
  "wf_lists s L \<longleftrightarrow>
     (\<forall>q ob k. objs s q = Some ob \<longrightarrow>
        dll (deps s) None (L q k) (incoming ob k) \<and> distinct (L q k) \<and>
        (\<forall>d\<in>set (L q k). \<exists>r. deps s d = Some r \<and> dep_B r = q \<and> content r = k))"

definition wf_members ::
  "MemorySafety \<Rightarrow> (objptr \<Rightarrow> bool \<Rightarrow> depptr list) \<Rightarrow> depptr set \<Rightarrow> bool" where
  "wf_members s L X \<longleftrightarrow>
     (\<forall>d r. deps s d = Some r \<longrightarrow>
        objs s (dep_B r) \<noteq> None \<and> (d \<in> set (L (dep_B r) (content r)) \<longleftrightarrow> d \<notin> X))"

definition wf_gen :: "MemorySafety \<Rightarrow> depptr set \<Rightarrow> depptr set \<Rightarrow> bool" where
  "wf_gen s T X \<longleftrightarrow>
     wf_alloc s \<and> wf_registry s \<and> wf_tree s T \<and> (\<exists>L. wf_lists s L \<and> wf_members s L X)"

definition wf :: "MemorySafety \<Rightarrow> bool" where
  "wf s \<longleftrightarrow> wf_gen s {} {}"




section \<open>Observations on edges and on the cascade\<close>

text \<open>
  \<open>kedge s k\<close>: the pairs (source, target) of the live Dependency records of kind \<open>k\<close>;
  \<open>cedge\<close>: those of kind content. \<open>changed s s' x\<close>: the record of \<open>x\<close> differs between
  the two states in its valid flag or its tree root. \<open>freed_ok s s'\<close>: a Dependency
  record that was freed between the two states has an invalid source afterwards.
\<close>

definition kedge :: "MemorySafety \<Rightarrow> bool \<Rightarrow> (objptr \<times> objptr) set" where
  "kedge s k = {(a, b). \<exists>d r. deps s d = Some r \<and> dep_A r = a \<and> dep_B r = b \<and> content r = k}"

definition cedge :: "MemorySafety \<Rightarrow> (objptr \<times> objptr) set" where
  "cedge s = kedge s True"

definition changed :: "MemorySafety \<Rightarrow> MemorySafety \<Rightarrow> objptr \<Rightarrow> bool" where
  "changed s s' x \<longleftrightarrow> map_option obj_core (objs s' x) \<noteq> map_option obj_core (objs s x)"

definition freed_ok :: "MemorySafety \<Rightarrow> MemorySafety \<Rightarrow> bool" where
  "freed_ok s s' \<longleftrightarrow>
     (\<forall>d r. deps s d = Some r \<longrightarrow> deps s' d = None \<longrightarrow>
        (\<exists>ob'. objs s' (dep_A r) = Some ob' \<and> \<not> isValid ob'))"

text \<open>
  \<open>edge_kind s A B\<close>: the kind of the Dependency at the root of A's tree, if A is
  registered, has a tree, and the root's target is the record of B (\<open>True\<close> is content).
  \<open>edge_kind_after\<close> and \<open>reported_after\<close> read the edge kind and the handler log off the
  result of a run.
\<close>

definition edge_kind :: "MemorySafety \<Rightarrow> addr \<Rightarrow> addr \<Rightarrow> bool option" where
  "edge_kind s A B =
     (case lookup s A of None \<Rightarrow> None
      | Some a \<Rightarrow> (case objs s a of None \<Rightarrow> None
      | Some oa \<Rightarrow> (case dependencies oa of None \<Rightarrow> None
      | Some d \<Rightarrow> (case deps s d of None \<Rightarrow> None
      | Some r \<Rightarrow> if lookup s B = Some (dep_B r) then Some (content r) else None))))"



section \<open>Evaluation\<close>

lemmas prim_defs = read_dep_def read_obj_def modify_dep_def modify_obj_def delete_dep_def
  incoming_def set_incoming_def new_Object_def new_Dependency_def new_dep_def

lemmas op_defs = link_def unlink_def Object_addDependency_def lookup_or_create_def
  violationHandler_def MemorySafety_validate_def addDependency_def addContentDependency_def
  markModified_def markDestroyed_def validate_def add_dependency_def add_content_dependency_def
  mark_modified_def mark_destroyed_def MemorySafety_init_def

lemmas obs_defs = has_record_def has_record_after_def registered_invalid_def node_live_def

section \<open>Frame properties of the operations\<close>

lemma dep_step_refl: "dep_step s s"
  by (simp add: dep_step_def)

lemma dep_step_trans:
  assumes ab: "dep_step a b" and bc: "dep_step b c"
  shows "dep_step a c"
proof -
  have le: "fresh_dep a \<le> fresh_dep b" "fresh_dep b \<le> fresh_dep c"
    using ab bc by (simp_all add: dep_step_def)
  have new: "fresh_dep a \<le> d \<and> d < fresh_dep c" if h: "deps a d = None" "deps c d \<noteq> None" for d
  proof (cases "deps b d")
    case None
    with bc h(2) have "fresh_dep b \<le> d \<and> d < fresh_dep c" unfolding dep_step_def by blast
    with le show ?thesis by simp
  next
    case (Some r')
    with ab h(1) have "fresh_dep a \<le> d \<and> d < fresh_dep b" unfolding dep_step_def by auto
    with le show ?thesis by simp
  qed
  have old: "dep_A r'' = dep_A r \<and> dep_B r'' = dep_B r \<and> (content r \<longrightarrow> content r'')"
    if h: "deps a d = Some r" "deps c d = Some r''" "d < fresh_dep a" for d r r''
  proof (cases "deps b d")
    case None
    with h(2) bc have "fresh_dep b \<le> d" unfolding dep_step_def by auto
    with h(3) le show ?thesis by simp
  next
    case (Some r')
    from ab h(1,3) Some
    have 1: "dep_A r' = dep_A r \<and> dep_B r' = dep_B r \<and> (content r \<longrightarrow> content r')"
      unfolding dep_step_def by blast
    from le h(3) have "d < fresh_dep b" by simp
    with bc h(2) Some
    have "dep_A r'' = dep_A r' \<and> dep_B r'' = dep_B r' \<and> (content r' \<longrightarrow> content r'')"
      unfolding dep_step_def by blast
    with 1 show ?thesis by simp
  qed
  from le have "fresh_dep a \<le> fresh_dep c" by simp
  with new old show ?thesis unfolding dep_step_def by blast
qed

lemma frame_refl: "frame s s"
  by (simp add: frame_def dep_step_refl)

lemma frame_trans:
  assumes ab: "frame a b" and bc: "frame b c"
  shows "frame a c"
proof -
  have v: "isValid ob" if h: "objs a p = Some ob" "objs c p = Some ob''" "isValid ob''"
    for p ob ob''
  proof -
    from ab h(1) obtain ob' where b: "objs b p = Some ob'"
      unfolding frame_def by (cases "objs b p") auto
    with bc h(2,3) have "isValid ob'" unfolding frame_def by blast
    with ab h(1) b show "isValid ob" unfolding frame_def by blast
  qed
  have d: "dep_step a c" using ab bc unfolding frame_def by (blast intro: dep_step_trans)
  have e: "lookup c = lookup a \<and> fresh_obj c = fresh_obj a \<and> initialized c = initialized a \<and>
     reported c = reported a \<and> (\<forall>p. objs c p = None \<longleftrightarrow> objs a p = None)"
    using ab bc by (simp add: frame_def)
  from v d e show ?thesis unfolding frame_def by blast
qed

lemma cascade_frame_refl: "cascade_frame s s"
  by (simp add: cascade_frame_def frame_refl)

lemma cascade_frameD1: "cascade_frame s s' \<Longrightarrow> frame s s'"
  unfolding cascade_frame_def by (erule conjunct1)

lemma cascade_frameD2: "cascade_frame s s' \<Longrightarrow> fresh_dep s' = fresh_dep s"
  unfolding cascade_frame_def by (elim conjE)

lemma cascade_frameD3: "cascade_frame s s' \<Longrightarrow> deps s d = None \<Longrightarrow> deps s' d = None"
  unfolding cascade_frame_def by (elim conjE) (erule allE, erule mp)

lemma cascade_frameD4:
  "cascade_frame s s' \<Longrightarrow> deps s d = Some r \<Longrightarrow> deps s' d = Some r' \<Longrightarrow>
     dep_A r' = dep_A r \<and> dep_B r' = dep_B r \<and> content r' = content r"
  unfolding cascade_frame_def by meson

lemma cascade_frameD5:
  "cascade_frame s s' \<Longrightarrow> objs s p = Some ob \<Longrightarrow> objs s' p = Some ob' \<Longrightarrow>
     dependencies ob' = dependencies ob \<or> dependencies ob' = None"
  unfolding cascade_frame_def by meson

lemmas cascade_frameD = cascade_frameD1 cascade_frameD2 cascade_frameD3 cascade_frameD4 cascade_frameD5

lemma frameD1:
  "frame s s' \<Longrightarrow> lookup s' = lookup s \<and> fresh_obj s' = fresh_obj s \<and>
     initialized s' = initialized s \<and> reported s' = reported s"
  unfolding frame_def by (elim conjE) (intro conjI; assumption)

lemma frameD2: "frame s s' \<Longrightarrow> (objs s' p = None) = (objs s p = None)"
  unfolding frame_def by (elim conjE) (erule allE)

lemma frameD3:
  "frame s s' \<Longrightarrow> objs s p = Some ob \<Longrightarrow> objs s' p = Some ob' \<Longrightarrow> isValid ob' \<Longrightarrow> isValid ob"
  unfolding frame_def by meson


lemma cascade_frame_trans:
  assumes ab: "cascade_frame a b" and bc: "cascade_frame b c"
  shows "cascade_frame a c"
proof -
  have f: "frame a c" using cascade_frameD(1)[OF ab] cascade_frameD(1)[OF bc] by (rule frame_trans)
  have n1: "fresh_dep c = fresh_dep a"
    using cascade_frameD(2)[OF ab] cascade_frameD(2)[OF bc] by simp
  have n2: "deps c d = None" if "deps a d = None" for d
    using cascade_frameD(3)[OF ab that] by (rule cascade_frameD(3)[OF bc])
  have l: "dep_A r'' = dep_A r \<and> dep_B r'' = dep_B r \<and> content r'' = content r"
    if h: "deps a d = Some r" "deps c d = Some r''" for d r r''
  proof (cases "deps b d")
    case None
    from cascade_frameD(3)[OF bc None] h(2) show ?thesis by simp
  next
    case (Some r')
    from cascade_frameD(4)[OF ab h(1) Some] cascade_frameD(4)[OF bc Some h(2)]
    show ?thesis by simp
  qed
  have o: "dependencies ob'' = dependencies ob \<or> dependencies ob'' = None"
    if h: "objs a p = Some ob" "objs c p = Some ob''" for p ob ob''
  proof (cases "objs b p")
    case None
    with frameD2[OF cascade_frameD(1)[OF ab], of p] h(1) show ?thesis by simp
  next
    case (Some ob')
    from cascade_frameD(5)[OF ab h(1) Some] cascade_frameD(5)[OF bc Some h(2)]
    show ?thesis by auto
  qed
  show ?thesis unfolding cascade_frame_def
    using f n1 n2 l o by meson
qed

lemma seq_eq_Inr: "seq m f = Inr y \<longleftrightarrow> (\<exists>x. m = Inr x \<and> f x = Inr y)"
  by (cases m) auto

lemma presD: "pres R f \<Longrightarrow> f s = Inr s' \<Longrightarrow> R s s'"
  by (simp add: pres_def)

lemma preorder_frame: "preorder_rel frame"
  unfolding preorder_rel_def by (meson frame_refl frame_trans)

lemma preorder_cascade_frame: "preorder_rel cascade_frame"
  unfolding preorder_rel_def by (meson cascade_frame_refl cascade_frame_trans)

lemma pres_Inr: "preorder_rel R \<Longrightarrow> pres R Inr"
  by (simp add: pres_def preorder_rel_def)

lemma pres_Inr': "preorder_rel R \<Longrightarrow> pres R (\<lambda>s. Inr s)"
  by (simp add: pres_def preorder_rel_def)

lemma pres_Inl: "pres R (\<lambda>s. Inl e)"
  by (simp add: pres_def)

lemma pres_seq: "preorder_rel R \<Longrightarrow> pres R f \<Longrightarrow> pres R g \<Longrightarrow> pres R (\<lambda>s. seq (f s) g)"
  unfolding pres_def preorder_rel_def seq_eq_Inr by meson

lemma pres_read_dep: "(\<And>r. pres R (g r)) \<Longrightarrow> pres R (\<lambda>s. seq (read_dep d s) (\<lambda>r. g r s))"
  unfolding pres_def seq_eq_Inr by meson

lemma pres_read_obj: "(\<And>r. pres R (g r)) \<Longrightarrow> pres R (\<lambda>s. seq (read_obj d s) (\<lambda>r. g r s))"
  unfolding pres_def seq_eq_Inr by meson

lemma pres_if: "pres R f \<Longrightarrow> pres R g \<Longrightarrow> pres R (\<lambda>s. if b then f s else g s)"
  by (simp add: pres_def)

lemma pres_case_option:
  "pres R f \<Longrightarrow> (\<And>y. pres R (g y)) \<Longrightarrow> pres R (\<lambda>s. case x of None \<Rightarrow> f s | Some y \<Rightarrow> g y s)"
  by (cases x) (simp_all add: pres_def)

lemma pres_after: "preorder_rel R \<Longrightarrow> (\<And>s. R s (h s)) \<Longrightarrow> pres R g \<Longrightarrow> pres R (\<lambda>s. g (h s))"
  unfolding pres_def preorder_rel_def by meson

lemmas pres_rules = pres_Inr pres_Inr' pres_Inl pres_seq pres_read_dep pres_read_obj pres_if
  pres_case_option

lemma frame_modify_dep:
  assumes "\<And>r. dep_A (F r) = dep_A r \<and> dep_B (F r) = dep_B r \<and> (content r \<longrightarrow> content (F r))"
  shows "pres frame (modify_dep d F)"
  using assms
  by (auto simp: pres_def modify_dep_def frame_def dep_step_def split: option.splits)

lemma frame_modify_obj:
  assumes "\<And>ob. isValid (F ob) \<longrightarrow> isValid ob"
  shows "pres frame (modify_obj p F)"
  using assms
  by (auto simp: pres_def modify_obj_def frame_def dep_step_def split: option.splits)

lemma cascade_frame_modify_dep:
  assumes "\<And>r. dep_A (F r) = dep_A r \<and> dep_B (F r) = dep_B r \<and> content (F r) = content r"
  shows "pres cascade_frame (modify_dep d F)"
  using assms
  by (auto simp: pres_def modify_dep_def cascade_frame_def frame_def dep_step_def split: option.splits)

lemma cascade_frame_modify_obj:
  assumes "\<And>ob. (isValid (F ob) \<longrightarrow> isValid ob) \<and> (dependencies (F ob) = dependencies ob \<or> dependencies (F ob) = None)"
  shows "pres cascade_frame (modify_obj p F)"
  using assms
  by (auto simp: pres_def modify_obj_def cascade_frame_def frame_def dep_step_def split: option.splits)

lemma cascade_frame_delete_dep: "cascade_frame s (delete_dep d s)"
  by (auto simp: delete_dep_def cascade_frame_def frame_def dep_step_def)

lemma cascade_frame_unlink: "pres cascade_frame (unlink d)"
  unfolding unlink_def
  by (intro pres_rules preorder_cascade_frame cascade_frame_modify_dep cascade_frame_modify_obj)
     (simp_all add: set_incoming_def)

lemma cascade_frame_drop_dependencies: "pres cascade_frame (drop_dependencies n d)"
proof (induction n arbitrary: d)
  case 0
  show ?case by (simp add: pres_def)
next
  case (Suc n)
  show ?case
  proof (cases d)
    case None
    then show ?thesis by (simp add: pres_def cascade_frame_refl)
  next
    case (Some x)
    show ?thesis unfolding Some drop_dependencies.simps
      by (intro pres_rules preorder_cascade_frame cascade_frame_modify_dep
            cascade_frame_unlink Suc.IH pres_after cascade_frame_delete_dep) simp_all
  qed
qed

lemma cascade_frame_invalidate_all:
  "pres cascade_frame (invalidateIncoming_loop n k p) \<and>
   pres cascade_frame (invalidateIncoming n p c) \<and>
   pres cascade_frame (invalidate n p)"
proof (induction n arbitrary: k p c)
  case 0
  show ?case by (simp add: pres_def)
next
  case (Suc n)
  have 1: "pres cascade_frame (invalidateIncoming_loop (Suc n) k p)"
    unfolding invalidateIncoming_loop.simps
    by (intro pres_rules preorder_cascade_frame Suc.IH [THEN conjunct1]
          Suc.IH [THEN conjunct2, THEN conjunct2])
  have 2: "pres cascade_frame (invalidateIncoming (Suc n) p c)"
    unfolding invalidateIncoming.simps
    by (intro pres_rules preorder_cascade_frame Suc.IH [THEN conjunct1])
  have 3: "pres cascade_frame (invalidate (Suc n) p)"
    unfolding invalidate.simps
    by (intro pres_rules preorder_cascade_frame Suc.IH [THEN conjunct2, THEN conjunct1]
          cascade_frame_modify_obj cascade_frame_drop_dependencies) simp_all
  from 1 2 3 show ?case by (intro conjI)
qed

lemmas cascade_frame_invalidateIncoming_loop = cascade_frame_invalidate_all [THEN conjunct1]
lemmas cascade_frame_invalidateIncoming = cascade_frame_invalidate_all [THEN conjunct2, THEN conjunct1]
lemmas cascade_frame_invalidate = cascade_frame_invalidate_all [THEN conjunct2, THEN conjunct2]

lemma pres_weaken: "pres R f \<Longrightarrow> (\<And>s s'. R s s' \<Longrightarrow> R' s s') \<Longrightarrow> pres R' f"
  by (simp add: pres_def)

lemma frame_unlink: "pres frame (unlink d)"
  by (rule pres_weaken [OF cascade_frame_unlink]) (rule cascade_frameD1)

lemma frame_invalidate: "pres frame (invalidate n p)"
  by (rule pres_weaken [OF cascade_frame_invalidate]) (rule cascade_frameD1)

lemma frame_link: "pres frame (link d)"
  unfolding link_def
  by (intro pres_rules preorder_frame frame_modify_dep frame_modify_obj)
     (simp_all add: set_incoming_def)

lemma frame_leftRotate: "pres frame (leftRotate p dep)"
  unfolding leftRotate_def
  by (intro pres_rules preorder_frame frame_modify_dep frame_modify_obj) simp_all

lemma frame_rightRotate: "pres frame (rightRotate p dep)"
  unfolding rightRotate_def
  by (intro pres_rules preorder_frame frame_modify_dep frame_modify_obj) simp_all

lemma frame_rightRotate_parent: "pres frame (rightRotate_parent p dep)"
  unfolding rightRotate_parent_def
  by (intro pres_rules preorder_frame frame_rightRotate)

lemma frame_leftRotate_parent: "pres frame (leftRotate_parent p dep)"
  unfolding leftRotate_parent_def
  by (intro pres_rules preorder_frame frame_leftRotate)

lemma frame_splay: "pres frame (splay n p dep)"
proof (induction n)
  case 0
  show ?case by (simp add: pres_def)
next
  case (Suc n)
  show ?case unfolding splay.simps
    by (intro pres_rules preorder_frame frame_leftRotate frame_rightRotate
          frame_leftRotate_parent frame_rightRotate_parent Suc.IH)
qed

lemma pres_read_search:
  "(\<And>a b. pres R (g a b)) \<Longrightarrow>
   pres R (\<lambda>s. seq (addDependency_search n t it par s) (\<lambda>(a, b). g a b s))"
  unfolding pres_def seq_eq_Inr by (metis case_prod_conv surj_pair)

lemma pres_new_dep:
  "preorder_rel R \<Longrightarrow> (\<And>s. R s (snd (new_dep r s))) \<Longrightarrow> (\<And>d. pres R (g d)) \<Longrightarrow>
   pres R (\<lambda>s. case new_dep r s of (d, s1) \<Rightarrow> g d s1)"
  unfolding pres_def preorder_rel_def by (metis case_prod_beta)

lemma frame_new_dep: "frame s (snd (new_dep r s))"
  by (auto simp: new_dep_def frame_def dep_step_def)

lemma frame_Object_addDependency: "pres frame (Object_addDependency n p target c)"
  unfolding Object_addDependency_def
  by (intro pres_rules pres_read_search pres_new_dep preorder_frame frame_modify_dep
        frame_modify_obj frame_link frame_unlink frame_splay frame_new_dep)
     simp_all

section \<open>The search loop of addDependency\<close>

lemma addDependency_search_stuck:
  "deps s it = Some r \<Longrightarrow> dep_B r \<noteq> target \<Longrightarrow>
   addDependency_search n target (Some it) par s = Inl OutOfFuel"
  by (induction n arbitrary: par) (auto simp: read_dep_def)

lemma Object_addDependency_stuck:
  assumes "objs s p = Some ob" "dependencies ob = Some it" "deps s it = Some r"
    and "dep_B r \<noteq> target"
  shows "Object_addDependency n p target c s = Inl OutOfFuel"
  using assms by (simp add: Object_addDependency_def read_obj_def addDependency_search_stuck)

section \<open>Records created and removed by the public operations\<close>

lemma frame_has_record: "frame s s' \<Longrightarrow> has_record s A \<Longrightarrow> has_record s' A"
  by (auto simp: has_record_def frame_def split: option.splits)

lemma has_record_lookup_or_create:
  assumes "lookup_or_create A s = (a, s1)" and "has_record s B"
  shows "has_record s1 B"
proof (cases "lookup s A")
  case None
  with assms show ?thesis
    by (cases "lookup s B") (auto simp: lookup_or_create_def has_record_def)
next
  case (Some p)
  with assms show ?thesis by (simp add: lookup_or_create_def)
qed

lemma lookup_or_create_has_record:
  assumes "lookup_or_create A s = (a, s1)" and "lookup s A = None"
  shows "has_record s1 A"
  using assms by (auto simp: lookup_or_create_def has_record_def)

lemma lookup_or_create_fresh_valid:
  assumes "lookup_or_create A s = (a, s1)" and "lookup s A = None" and "objs s1 a = Some oa"
  shows "isValid oa"
  using assms by (auto simp: lookup_or_create_def new_Object_def)

lemma lookup_or_create_found:
  assumes "lookup_or_create A s = (a, s1)" and "lookup s A = Some p"
  shows "a = p \<and> s1 = s"
  using assms by (simp add: lookup_or_create_def)


lemma registry_invalidateIncoming:
  assumes "invalidateIncoming n p c s = Inr s'"
  shows "lookup s' = lookup s \<and> fresh_obj s' = fresh_obj s \<and>
     initialized s' = initialized s \<and> reported s' = reported s"
  by (rule frameD1 [OF cascade_frameD1 [OF presD [OF cascade_frame_invalidateIncoming assms]]])

lemma lookup_invalidateIncoming:
  "invalidateIncoming n p c s = Inr s' \<Longrightarrow> lookup s' = lookup s"
  by (simp add: registry_invalidateIncoming)

lemma markDestroyed_unregisters:
  "markDestroyed n B s = Inr s' \<Longrightarrow> lookup s' B = None"
  by (auto simp: markDestroyed_def seq_eq_Inr dest: lookup_invalidateIncoming split: option.splits)

text \<open>What a returning call of addDependency / addContentDependency did.\<close>

lemma addDependency_cases:
  assumes "addDependency m A B s = Inr s'"
  obtains (invalid) a oa where "lookup s A = Some a" "objs s a = Some oa" "\<not> isValid oa" "s' = s"
  | (added) a s1 oa b s2 where "lookup_or_create A s = (a, s1)" "objs s1 a = Some oa" "isValid oa"
      "lookup_or_create B s1 = (b, s2)" "Object_addDependency m a b False s2 = Inr s'"
proof -
  obtain a s1 where c: "lookup_or_create A s = (a, s1)" by (cases "lookup_or_create A s")
  from assms c obtain oa where oa: "objs s1 a = Some oa"
    by (auto simp: addDependency_def seq_eq_Inr read_obj_def split: option.splits)
  show ?thesis
  proof (cases "isValid oa")
    case False
    have "lookup s A \<noteq> None"
    proof
      assume "lookup s A = None"
      from lookup_or_create_fresh_valid [OF c this oa] False show False by simp
    qed
    then obtain p where p: "lookup s A = Some p" by auto
    from lookup_or_create_found [OF c p] have e: "a = p" "s1 = s" by simp_all
    from assms c oa False e have "s' = s"
      by (auto simp: addDependency_def seq_eq_Inr read_obj_def)
    with p oa e False show ?thesis by (intro invalid [of p oa]) simp_all
  next
    case True
    obtain b s2 where c2: "lookup_or_create B s1 = (b, s2)" by (cases "lookup_or_create B s1")
    from assms c oa True c2 have "Object_addDependency m a b False s2 = Inr s'"
      by (auto simp: addDependency_def seq_eq_Inr read_obj_def)
    with c oa True c2 show ?thesis by (rule added)
  qed
qed

lemma addContentDependency_cases:
  assumes "addContentDependency m A B s = Inr s'"
  obtains (invalid) a oa where "lookup s A = Some a" "objs s a = Some oa" "\<not> isValid oa" "s' = s"
  | (target_invalid) a s1 oa b s2 ob where "lookup_or_create A s = (a, s1)" "objs s1 a = Some oa"
      "isValid oa" "lookup_or_create B s1 = (b, s2)" "objs s2 b = Some ob" "\<not> isValid ob"
      "invalidate m a s2 = Inr s'"
  | (added) a s1 oa b s2 ob where "lookup_or_create A s = (a, s1)" "objs s1 a = Some oa"
      "isValid oa" "lookup_or_create B s1 = (b, s2)" "objs s2 b = Some ob" "isValid ob"
      "Object_addDependency m a b True s2 = Inr s'"
proof -
  obtain a s1 where c: "lookup_or_create A s = (a, s1)" by (cases "lookup_or_create A s")
  from assms c obtain oa where oa: "objs s1 a = Some oa"
    by (auto simp: addContentDependency_def seq_eq_Inr read_obj_def split: option.splits)
  show ?thesis
  proof (cases "isValid oa")
    case False
    have "lookup s A \<noteq> None"
    proof
      assume "lookup s A = None"
      from lookup_or_create_fresh_valid [OF c this oa] False show False by simp
    qed
    then obtain p where p: "lookup s A = Some p" by auto
    from lookup_or_create_found [OF c p] have e: "a = p" "s1 = s" by simp_all
    from assms c oa False e have "s' = s"
      by (auto simp: addContentDependency_def seq_eq_Inr read_obj_def)
    with p oa e False show ?thesis by (intro invalid [of p oa]) simp_all
  next
    case True
    obtain b s2 where c2: "lookup_or_create B s1 = (b, s2)" by (cases "lookup_or_create B s1")
    from assms c oa True c2 obtain ob where ob: "objs s2 b = Some ob"
      by (auto simp: addContentDependency_def seq_eq_Inr read_obj_def split: option.splits)
    show ?thesis
    proof (cases "isValid ob")
      case False
      from assms c oa True c2 ob False have "invalidate m a s2 = Inr s'"
        by (auto simp: addContentDependency_def seq_eq_Inr read_obj_def)
      with c oa True c2 ob False show ?thesis by (rule target_invalid)
    next
      case vb: True
      from assms c oa True c2 ob vb have "Object_addDependency m a b True s2 = Inr s'"
        by (auto simp: addContentDependency_def seq_eq_Inr read_obj_def)
      with c oa True c2 ob vb show ?thesis by (rule added)
    qed
  qed
qed

lemma addDependency_source_recreated:
  assumes "addDependency m B X s = Inr s'" and "lookup s B = None"
  shows "has_record s' B"
  using assms(1)
proof (cases rule: addDependency_cases)
  case (invalid a oa)
  with assms(2) show ?thesis by simp
next
  case (added a s1 oa b s2)
  from lookup_or_create_has_record [OF added(1) assms(2)] have "has_record s1 B" .
  from has_record_lookup_or_create [OF added(4) this] have "has_record s2 B" .
  with presD [OF frame_Object_addDependency added(5)] show ?thesis
    by (rule frame_has_record)
qed

lemma added_target_record:
  assumes "lookup_or_create X s = (a, s1)" "lookup_or_create B s1 = (b, s2)" "lookup s B = None"
  shows "has_record s2 B"
proof (cases "lookup s1 B")
  case None
  from lookup_or_create_has_record [OF assms(2) None] show ?thesis .
next
  case (Some p)
  with assms(1,3) have "X = B"
    by (auto simp: lookup_or_create_def split: option.splits if_splits)
  with assms(1,3) have "has_record s1 B" by (auto intro: lookup_or_create_has_record)
  from has_record_lookup_or_create [OF assms(2) this] show ?thesis .
qed

lemma addDependency_target_recreated:
  assumes "addDependency m X B s = Inr s'" and "lookup s B = None"
  shows "has_record s' B \<or> (registered_invalid s X \<and> s' = s)"
  using assms(1)
proof (cases rule: addDependency_cases)
  case (invalid a oa)
  then show ?thesis by (simp add: registered_invalid_def)
next
  case (added a s1 oa b s2)
  from added_target_record [OF added(1) added(4) assms(2)]
    presD [OF frame_Object_addDependency added(5)]
  show ?thesis by (auto intro: frame_has_record)
qed

lemma addContentDependency_source_recreated:
  assumes "addContentDependency m B X s = Inr s'" and "lookup s B = None"
  shows "has_record s' B"
  using assms(1)
proof (cases rule: addContentDependency_cases)
  case (invalid a oa)
  with assms(2) show ?thesis by simp
next
  case (target_invalid a s1 oa b s2 ob)
  from lookup_or_create_has_record [OF target_invalid(1) assms(2)] have "has_record s1 B" .
  from has_record_lookup_or_create [OF target_invalid(4) this] have "has_record s2 B" .
  with presD [OF frame_invalidate target_invalid(7)] show ?thesis
    by (rule frame_has_record)
next
  case (added a s1 oa b s2 ob)
  from lookup_or_create_has_record [OF added(1) assms(2)] have "has_record s1 B" .
  from has_record_lookup_or_create [OF added(4) this] have "has_record s2 B" .
  with presD [OF frame_Object_addDependency added(7)] show ?thesis
    by (rule frame_has_record)
qed

lemma addContentDependency_target_recreated:
  assumes "addContentDependency m X B s = Inr s'" and "lookup s B = None"
  shows "has_record s' B \<or> (registered_invalid s X \<and> s' = s)"
  using assms(1)
proof (cases rule: addContentDependency_cases)
  case (invalid a oa)
  then show ?thesis by (simp add: registered_invalid_def)
next
  case (target_invalid a s1 oa b s2 ob)
  from added_target_record [OF target_invalid(1) target_invalid(4) assms(2)]
    presD [OF frame_invalidate target_invalid(7)]
  show ?thesis by (auto intro: frame_has_record)
next
  case (added a s1 oa b s2 ob)
  from added_target_record [OF added(1) added(4) assms(2)]
    presD [OF frame_Object_addDependency added(7)]
  show ?thesis by (auto intro: frame_has_record)
qed

section \<open>Doubly linked lists\<close>

lemma dll_fields_cong:
  assumes "dll h pv ds hp"
    and "\<And>z. z \<in> set ds \<Longrightarrow> \<exists>rz rz'. h z = Some rz \<and> h' z = Some rz' \<and> prev rz' = prev rz \<and> nxt rz' = nxt rz"
  shows "dll h' pv ds hp"
  using assms
proof (induction ds arbitrary: pv hp)
  case Nil
  then show ?case by simp
next
  case (Cons d ds)
  from Cons.prems(2) [of d] obtain rz rz' where
    z: "h d = Some rz" "h' d = Some rz'" "prev rz' = prev rz" "nxt rz' = nxt rz" by auto
  from Cons.prems(1) z have 1: "hp = Some d" "prev rz = pv" "dll h (Some d) ds (nxt rz)" by auto
  have "dll h' (Some d) ds (nxt rz)"
    by (rule Cons.IH [OF 1(3)]) (use Cons.prems(2) in auto)
  with z 1 show ?case by simp
qed

lemma dll_live: "dll h pv ds hp \<Longrightarrow> z \<in> set ds \<Longrightarrow> h z \<noteq> None"
  by (induction ds arbitrary: pv hp) (auto split: option.splits)

lemma dll_head: "dll h pv ds hp \<Longrightarrow> hp = (case ds of [] \<Rightarrow> None | d # _ \<Rightarrow> Some d)"
  by (cases ds) auto

lemma dll_prev:
  "dll h pv (xs @ d # ys) hp \<Longrightarrow> h d = Some r \<Longrightarrow>
     prev r = (if xs = [] then pv else Some (last xs))"
  by (induction xs arbitrary: pv hp) (auto split: option.splits)

lemma dll_next:
  "dll h pv (xs @ d # ys) hp \<Longrightarrow> h d = Some r \<Longrightarrow>
     nxt r = (case ys of [] \<Rightarrow> None | y # _ \<Rightarrow> Some y)"
  by (induction xs arbitrary: pv hp) (auto split: option.splits list.splits)

lemma dll_unlink:
  assumes "dll h pv (xs @ d # ys) hp" and "distinct (xs @ d # ys)" and "h d = Some r"
    and "\<And>x. pv = Some x \<Longrightarrow> x \<notin> set (xs @ d # ys)"
    and "\<And>z. z \<in> set (xs @ ys) \<Longrightarrow> \<exists>rz rz'. h z = Some rz \<and> h' z = Some rz' \<and>
            prev rz' = (if nxt r = Some z then prev r else prev rz) \<and>
            nxt rz' = (if prev r = Some z then nxt r else nxt rz)"
  shows "dll h' pv (xs @ ys) (if xs = [] then nxt r else hp)"
  using assms
proof (induction xs arbitrary: pv hp)
  case Nil
  from Nil.prems(1,3) have 1: "hp = Some d" "prev r = pv" "dll h (Some d) ys (nxt r)" by auto
  show ?case
  proof (cases ys)
    case Nil
    with 1 show ?thesis by simp
  next
    case (Cons y ys')
    from 1(3) Cons obtain ry where
      y: "nxt r = Some y" "h y = Some ry" "prev ry = Some d" "dll h (Some y) ys' (nxt ry)"
      by (auto split: option.splits)
    from Nil.prems(5) [of y] Cons y obtain ry' where
      y': "h' y = Some ry'" "prev ry' = prev r" "nxt ry' = (if prev r = Some y then nxt r else nxt ry)"
      by auto
    from Nil.prems(4) [of y] 1(2) Cons have "prev r \<noteq> Some y" by auto
    with y' have y'': "nxt ry' = nxt ry" by simp
    have "dll h' (Some y) ys' (nxt ry)"
    proof (rule dll_fields_cong [OF y(4)])
      fix z assume z: "z \<in> set ys'"
      with Nil.prems(2) Cons have ne: "z \<noteq> y" "z \<noteq> d" by auto
      from Nil.prems(4) [of z] 1(2) Cons z have "prev r \<noteq> Some z" by auto
      with Nil.prems(5) [of z] z Cons ne y(1)
      show "\<exists>rz rz'. h z = Some rz \<and> h' z = Some rz' \<and> prev rz' = prev rz \<and> nxt rz' = nxt rz"
        by auto
    qed
    with y y' y'' 1 Cons show ?thesis by simp
  qed
next
  case (Cons x xs)
  from Cons.prems(1) obtain rx where
    x: "hp = Some x" "h x = Some rx" "prev rx = pv" "dll h (Some x) (xs @ d # ys) (nxt rx)"
    by (auto split: option.splits)
  from Cons.prems(5) [of x] x obtain rx' where
    x': "h' x = Some rx'" "prev rx' = (if nxt r = Some x then prev r else prev rx)"
       "nxt rx' = (if prev r = Some x then nxt r else nxt rx)"
    by auto
  from dll_next [OF x(4) Cons.prems(3)] Cons.prems(2) have "nxt r \<noteq> Some x"
    by (auto split: list.splits)
  with x' x have px: "prev rx' = pv" by simp
  from dll_prev [OF x(4) Cons.prems(3)] Cons.prems(2)
  have pr: "prev r = Some x \<longleftrightarrow> xs = []" by auto
  have ih: "dll h' (Some x) (xs @ ys) (if xs = [] then nxt r else nxt rx)"
  proof (rule Cons.IH [OF x(4) _ Cons.prems(3)])
    show "distinct (xs @ d # ys)" using Cons.prems(2) by simp
    show "\<And>xa. Some x = Some xa \<Longrightarrow> xa \<notin> set (xs @ d # ys)" using Cons.prems(2) by auto
    show "\<And>z. z \<in> set (xs @ ys) \<Longrightarrow> \<exists>rz rz'. h z = Some rz \<and> h' z = Some rz' \<and>
            prev rz' = (if nxt r = Some z then prev r else prev rz) \<and>
            nxt rz' = (if prev r = Some z then nxt r else nxt rz)"
      using Cons.prems(5) by auto
  qed
  from pr x' have "nxt rx' = (if xs = [] then nxt r else nxt rx)" by simp
  with ih x x' px show ?case by simp
qed

lemma dll_cons:
  assumes "dll h None ds hp" and "distinct ds" and "d \<notin> set ds"
    and "h' d = Some rd" and "prev rd = None" and "nxt rd = hp"
    and "\<And>z. z \<in> set ds \<Longrightarrow> \<exists>rz rz'. h z = Some rz \<and> h' z = Some rz' \<and>
            prev rz' = (if hp = Some z then Some d else prev rz) \<and> nxt rz' = nxt rz"
  shows "dll h' None (d # ds) (Some d)"
proof (cases ds)
  case Nil
  with assms show ?thesis by simp
next
  case (Cons y ys)
  from assms(1) Cons obtain ry where
    y: "hp = Some y" "h y = Some ry" "prev ry = None" "dll h (Some y) ys (nxt ry)"
    by (auto split: option.splits)
  from assms(7) [of y] Cons y obtain ry' where
    y': "h' y = Some ry'" "prev ry' = Some d" "nxt ry' = nxt ry" by auto
  have "dll h' (Some y) ys (nxt ry)"
  proof (rule dll_fields_cong [OF y(4)])
    fix z assume z: "z \<in> set ys"
    with assms(2) Cons have "z \<noteq> y" by auto
    with assms(7) [of z] z Cons y(1)
    show "\<exists>rz rz'. h z = Some rz \<and> h' z = Some rz' \<and> prev rz' = prev rz \<and> nxt rz' = nxt rz"
      by auto
  qed
  with y y' assms(4,5,6) Cons show ?thesis by simp
qed

section \<open>Relations on list fields\<close>

lemma links_frame_refl: "links_frame s s"
  by (simp add: links_frame_def)

lemma links_frame_trans: "links_frame a b \<Longrightarrow> links_frame b c \<Longrightarrow> links_frame a c"
  by (simp add: links_frame_def)

lemma preorder_links_frame: "preorder_rel links_frame"
  unfolding preorder_rel_def by (meson links_frame_refl links_frame_trans)

lemma links_frame_modify_dep:
  assumes "\<And>r. dep_core (F r) = dep_core r"
  shows "pres links_frame (modify_dep d F)"
  using assms
  by (auto simp: pres_def modify_dep_def links_frame_def split: option.splits)

lemma links_frame_modify_obj:
  assumes "\<And>ob. obj_core (F ob) = obj_core ob"
  shows "pres links_frame (modify_obj p F)"
  using assms
  by (auto simp: pres_def modify_obj_def links_frame_def split: option.splits)

lemma links_frame_unlink: "pres links_frame (unlink d)"
  unfolding unlink_def
  by (intro pres_rules preorder_links_frame links_frame_modify_dep links_frame_modify_obj)
     (simp_all add: set_incoming_def dep_core_def obj_core_def)

lemma links_frame_link: "pres links_frame (link d)"
  unfolding link_def
  by (intro pres_rules preorder_links_frame links_frame_modify_dep links_frame_modify_obj)
     (simp_all add: set_incoming_def dep_core_def obj_core_def)

lemma links_frameD_reg:
  "links_frame s s' \<Longrightarrow> lookup s' = lookup s \<and> fresh_obj s' = fresh_obj s \<and>
     fresh_dep s' = fresh_dep s \<and> initialized s' = initialized s \<and> reported s' = reported s"
  by (simp add: links_frame_def)

lemma links_frameD_dep:
  "links_frame s s' \<Longrightarrow> map_option dep_core (deps s' d) = map_option dep_core (deps s d)"
  by (simp add: links_frame_def)

lemma links_frameD_obj:
  "links_frame s s' \<Longrightarrow> map_option obj_core (objs s' p) = map_option obj_core (objs s p)"
  by (simp add: links_frame_def)

lemma links_frame_live_dep:
  assumes "links_frame s s'"
  shows "(deps s' d = None) = (deps s d = None)"
  using links_frameD_dep [OF assms, of d] by (cases "deps s d"; cases "deps s' d") simp_all

lemma links_frame_live_obj:
  assumes "links_frame s s'"
  shows "(objs s' p = None) = (objs s p = None)"
  using links_frameD_obj [OF assms, of p] by (cases "objs s p"; cases "objs s' p") simp_all

lemma links_frame_dep:
  assumes "links_frame s s'" and "deps s d = Some r"
  shows "\<exists>r'. deps s' d = Some r' \<and> dep_core r' = dep_core r"
  using links_frameD_dep [OF assms(1), of d] assms(2) by (cases "deps s' d") simp_all

lemma links_frame_dep':
  assumes "links_frame s s'" and "deps s' d = Some r'"
  shows "\<exists>r. deps s d = Some r \<and> dep_core r' = dep_core r"
  using links_frameD_dep [OF assms(1), of d] assms(2) by (cases "deps s d") simp_all

lemma links_frame_obj:
  assumes "links_frame s s'" and "objs s p = Some ob"
  shows "\<exists>ob'. objs s' p = Some ob' \<and> obj_core ob' = obj_core ob"
  using links_frameD_obj [OF assms(1), of p] assms(2) by (cases "objs s' p") simp_all

lemma links_frame_obj':
  assumes "links_frame s s'" and "objs s' p = Some ob'"
  shows "\<exists>ob. objs s p = Some ob \<and> obj_core ob' = obj_core ob"
  using links_frameD_obj [OF assms(1), of p] assms(2) by (cases "objs s p") simp_all

lemma wf_alloc_links_frame:
  assumes "links_frame s s'" and "wf_alloc s"
  shows "wf_alloc s'"
proof -
  have "dep_A r' < fresh_obj s'" if "deps s' d = Some r'" for d r'
  proof -
    from links_frame_dep' [OF assms(1) that] obtain r where
      "deps s d = Some r" "dep_core r' = dep_core r" by blast
    with assms(2) links_frameD_reg [OF assms(1)] show ?thesis
      by (simp add: wf_alloc_def dep_core_def)
  qed
  with assms show ?thesis
    by (simp add: wf_alloc_def links_frame_live_dep links_frame_live_obj links_frameD_reg)
qed

lemma wf_registry_links_frame: "links_frame s s' \<Longrightarrow> wf_registry s \<Longrightarrow> wf_registry s'"
  by (simp add: wf_registry_def links_frame_live_obj links_frameD_reg)

lemma wf_tree_links_frame:
  assumes "links_frame s s'" and "wf_tree s T"
  shows "wf_tree s' T"
  unfolding wf_tree_def
proof (intro conjI allI impI)
  fix p ob' d assume h: "objs s' p = Some ob'" "dependencies ob' = Some d"
  from links_frame_obj' [OF assms(1) h(1)] obtain ob where
    ob: "objs s p = Some ob" "obj_core ob' = obj_core ob" by blast
  with h(2) have "dependencies ob = Some d" by (simp add: obj_core_def)
  with assms(2) ob(1) obtain r where
    r: "deps s d = Some r" "dep_A r = p" "parent r = None" "left r = None" "right r = None"
    unfolding wf_tree_def by meson
  from links_frame_dep [OF assms(1) r(1)] obtain r' where
    "deps s' d = Some r'" "dep_core r' = dep_core r" by blast
  with r show "\<exists>r. deps s' d = Some r \<and> dep_A r = p \<and> parent r = None \<and> left r = None \<and>
             right r = None"
    by (simp add: dep_core_def)
next
  fix d r' ob' assume h: "deps s' d = Some r'" "d \<notin> T" "objs s' (dep_A r') = Some ob'"
  from links_frame_dep' [OF assms(1) h(1)] obtain r where
    r: "deps s d = Some r" "dep_core r' = dep_core r" by blast
  then have a: "dep_A r' = dep_A r" by (simp add: dep_core_def)
  from links_frame_obj' [OF assms(1) h(3)] obtain ob where
    ob: "objs s (dep_A r') = Some ob" "obj_core ob' = obj_core ob" by blast
  from assms(2) r(1) h(2) ob(1) a have "dependencies ob = Some d"
    unfolding wf_tree_def by simp
  with ob(2) show "dependencies ob' = Some d" by (simp add: obj_core_def)
qed

lemma unlink_result:
  assumes "deps s d = Some r"
    and "\<And>x. prev r = Some x \<Longrightarrow> deps s x \<noteq> None"
    and "prev r = None \<Longrightarrow> objs s (dep_B r) = Some ob"
    and "\<And>y. nxt r = Some y \<Longrightarrow> deps s y \<noteq> None"
  shows "\<exists>s'. unlink d s = Inr s' \<and> deps s' = unlink_heap r d (deps s) \<and>
           objs s' = (if prev r = None
                      then (objs s)(dep_B r \<mapsto> set_incoming (content r) (nxt r) ob)
                      else objs s)"
proof (cases "prev r")
  case None
  note pn = None
  show ?thesis
  proof (cases "nxt r")
    case None
    with pn assms show ?thesis
      by (auto simp: unlink_def prim_defs unlink_heap_def fun_eq_iff split: option.splits)
  next
    case (Some y)
    with pn assms(1,3) assms(4) [of y] show ?thesis
      by (auto simp: unlink_def prim_defs unlink_heap_def fun_eq_iff split: option.splits)
  qed
next
  case (Some x)
  note px = Some
  show ?thesis
  proof (cases "nxt r")
    case None
    with px assms(1) assms(2) [of x] show ?thesis
      by (auto simp: unlink_def prim_defs unlink_heap_def fun_eq_iff split: option.splits)
  next
    case (Some y)
    with px assms(1) assms(2) [of x] assms(4) [of y] show ?thesis
      by (auto simp: unlink_def prim_defs unlink_heap_def fun_eq_iff split: option.splits)
  qed
qed

section \<open>Unlinking a record\<close>

lemma unlink_heap_Some:
  "h z = Some rz \<Longrightarrow> \<exists>rz'. unlink_heap r d h z = Some rz' \<and> dep_core rz' = dep_core rz \<and>
     prev rz' = (if z = d then None else if nxt r = Some z then prev r else prev rz) \<and>
     nxt rz' = (if z = d then None else if prev r = Some z then nxt r else nxt rz)"
  by (simp add: unlink_heap_def dep_core_def)

lemma unlink_heap_Some':
  "unlink_heap r d h z = Some rz' \<Longrightarrow> \<exists>rz. h z = Some rz \<and> dep_core rz' = dep_core rz"
  by (auto simp: unlink_heap_def dep_core_def split: option.splits)

lemma filter_neq_id: "d \<notin> set xs \<Longrightarrow> filter (\<lambda>z. z \<noteq> d) xs = xs"
  by (induction xs) auto

lemma unlink_wf:
  assumes wf: "wf_gen s T X" and d: "deps s d = Some r" and nx: "d \<notin> X"
  shows "\<exists>s'. unlink d s = Inr s' \<and> wf_gen s' T (insert d X) \<and> links_frame s s'"
proof -
  from wf obtain L where L: "wf_lists s L" "wf_members s L X"
    and st: "wf_alloc s" "wf_registry s" "wf_tree s T"
    unfolding wf_gen_def by blast
  let ?q = "dep_B r" and ?k = "content r"
  from L(2) d nx obtain ob where ob: "objs s ?q = Some ob" and mem: "d \<in> set (L ?q ?k)"
    unfolding wf_members_def by fastforce
  from L(1) ob have dl: "dll (deps s) None (L ?q ?k) (incoming ob ?k)"
    and di: "distinct (L ?q ?k)"
    and lab: "\<And>z. z \<in> set (L ?q ?k) \<Longrightarrow> \<exists>rz. deps s z = Some rz \<and> dep_B rz = ?q \<and> content rz = ?k"
    unfolding wf_lists_def by blast+
  from mem obtain xs ys where sp: "L ?q ?k = xs @ d # ys" by (auto dest: split_list)
  from dl sp have dl': "dll (deps s) None (xs @ d # ys) (incoming ob ?k)" by simp
  from di sp have di': "distinct (xs @ d # ys)" by simp
  have pr: "prev r = (if xs = [] then None else Some (last xs))"
    by (rule dll_prev [OF dl' d])
  have nr: "nxt r = (case ys of [] \<Rightarrow> None | y # _ \<Rightarrow> Some y)"
    by (rule dll_next [OF dl' d])
  have pin: "x \<in> set xs" if "prev r = Some x" for x
    using that pr by (auto split: if_splits)
  have nin: "y \<in> set ys" if "nxt r = Some y" for y
    using that nr by (auto split: list.splits)
  have plive: "deps s x \<noteq> None" if "prev r = Some x" for x
    using lab [of x] pin [OF that] sp by auto
  have nlive: "deps s y \<noteq> None" if "nxt r = Some y" for y
    using lab [of y] nin [OF that] sp by auto
  from unlink_result [OF d plive _ nlive, of ob] ob obtain s' where
    s': "unlink d s = Inr s'" "deps s' = unlink_heap r d (deps s)"
      "objs s' = (if prev r = None then (objs s)(?q \<mapsto> set_incoming ?k (nxt r) ob) else objs s)"
    by auto
  have lf: "links_frame s s'" by (rule presD [OF links_frame_unlink s'(1)])
  define L' where "L' = (\<lambda>q' k'. filter (\<lambda>z. z \<noteq> d) (L q' k'))"
  have lists: "wf_lists s' L'"
    unfolding wf_lists_def
  proof (intro allI impI)
    fix q' ob' k' assume o': "objs s' q' = Some ob'"
    from links_frame_obj' [OF lf o'] obtain ob0 where ob0: "objs s q' = Some ob0" by blast
    from L(1) ob0 have dl0: "dll (deps s) None (L q' k') (incoming ob0 k')"
      and di0: "distinct (L q' k')"
      and lab0: "\<And>z. z \<in> set (L q' k') \<Longrightarrow>
              \<exists>rz. deps s z = Some rz \<and> dep_B rz = q' \<and> content rz = k'"
      unfolding wf_lists_def by blast+
    have labs: "\<forall>z\<in>set (L' q' k'). \<exists>rz. deps s' z = Some rz \<and> dep_B rz = q' \<and> content rz = k'"
    proof
      fix z assume "z \<in> set (L' q' k')"
      then have "z \<in> set (L q' k')" by (simp add: L'_def)
      from lab0 [OF this] obtain rz where rz: "deps s z = Some rz" "dep_B rz = q'" "content rz = k'"
        by blast
      from unlink_heap_Some [where h = "deps s" and z = z and r = r and d = d, OF rz(1)] s'(2) rz(2,3)
      show "\<exists>rz. deps s' z = Some rz \<and> dep_B rz = q' \<and> content rz = k'"
        by (auto simp: dep_core_def)
    qed
    have "dll (deps s') None (L' q' k') (incoming ob' k')"
    proof (cases "q' = ?q \<and> k' = ?k")
      case True
      with sp di' have f: "L' q' k' = xs @ ys" by (simp add: L'_def filter_neq_id)
      from True ob ob0 have e: "ob0 = ob" by simp
      from o' s'(3) True e ob have inc: "incoming ob' k' = (if xs = [] then nxt r else incoming ob ?k)"
        using pr by (auto simp: incoming_def set_incoming_def split: if_splits)
      have "dll (unlink_heap r d (deps s)) None (xs @ ys) (if xs = [] then nxt r else incoming ob ?k)"
      proof (rule dll_unlink [OF dl' di' d])
        fix z assume z: "z \<in> set (xs @ ys)"
        with di' have zd: "z \<noteq> d" by auto
        from z sp lab [of z] obtain rz where rz: "deps s z = Some rz" by auto
        from unlink_heap_Some [where h = "deps s" and z = z and r = r and d = d, OF rz] zd rz
        show "\<exists>rz rz'. deps s z = Some rz \<and> unlink_heap r d (deps s) z = Some rz' \<and>
            prev rz' = (if nxt r = Some z then prev r else prev rz) \<and>
            nxt rz' = (if prev r = Some z then nxt r else nxt rz)" by auto
      qed simp
      with f inc s'(2) show ?thesis by simp
    next
      case False
      have dnot: "d \<notin> set (L q' k')"
      proof
        assume "d \<in> set (L q' k')"
        from lab0 [OF this] d False show False by auto
      qed
      then have f: "L' q' k' = L q' k'" by (simp add: L'_def filter_neq_id)
      from o' s'(3) ob0 ob False have inc: "incoming ob' k' = incoming ob0 k'"
        by (auto simp: incoming_def set_incoming_def split: if_splits)
      have "dll (unlink_heap r d (deps s)) None (L q' k') (incoming ob0 k')"
      proof (rule dll_fields_cong [OF dl0])
        fix z assume z: "z \<in> set (L q' k')"
        from lab0 [OF z] obtain rz where rz: "deps s z = Some rz" "dep_B rz = q'" "content rz = k'"
          by blast
        from z dnot have zd: "z \<noteq> d" by auto
        have n1: "nxt r \<noteq> Some z"
        proof
          assume "nxt r = Some z"
          from nin [OF this] sp lab [of z] rz False show False by auto
        qed
        have n2: "prev r \<noteq> Some z"
        proof
          assume "prev r = Some z"
          from pin [OF this] sp lab [of z] rz False show False by auto
        qed
        from unlink_heap_Some [where h = "deps s" and z = z and r = r and d = d, OF rz(1)] zd n1 n2 rz(1)
        show "\<exists>rz rz'. deps s z = Some rz \<and> unlink_heap r d (deps s) z = Some rz' \<and>
            prev rz' = prev rz \<and> nxt rz' = nxt rz" by auto
      qed
      with f inc s'(2) show ?thesis by simp
    qed
    moreover from di0 have "distinct (L' q' k')" by (simp add: L'_def)
    ultimately show "dll (deps s') None (L' q' k') (incoming ob' k') \<and> distinct (L' q' k') \<and>
        (\<forall>d\<in>set (L' q' k'). \<exists>r. deps s' d = Some r \<and> dep_B r = q' \<and> content r = k')"
      using labs by simp
  qed
  have members: "wf_members s' L' (insert d X)"
    unfolding wf_members_def
  proof (intro allI impI)
    fix z rz' assume z: "deps s' z = Some rz'"
    from unlink_heap_Some' [where h = "deps s" and z = z and r = r and d = d and rz' = rz'] z s'(2) obtain rz where
      rz: "deps s z = Some rz" "dep_core rz' = dep_core rz" by auto
    then have e: "dep_B rz' = dep_B rz" "content rz' = content rz" by (simp_all add: dep_core_def)
    from L(2) rz(1) have m: "objs s (dep_B rz) \<noteq> None"
      "z \<in> set (L (dep_B rz) (content rz)) \<longleftrightarrow> z \<notin> X"
      unfolding wf_members_def by blast+
    from m(1) links_frame_live_obj [OF lf] e have "objs s' (dep_B rz') \<noteq> None" by simp
    moreover from m(2) e have "z \<in> set (L' (dep_B rz') (content rz')) \<longleftrightarrow> z \<notin> insert d X"
      by (auto simp: L'_def)
    ultimately show "objs s' (dep_B rz') \<noteq> None \<and>
        (z \<in> set (L' (dep_B rz') (content rz')) \<longleftrightarrow> z \<notin> insert d X)" by simp
  qed
  from st lf have "wf_alloc s'" "wf_registry s'" "wf_tree s' T"
    by (blast intro: wf_alloc_links_frame wf_registry_links_frame wf_tree_links_frame)+
  with lists members have "wf_gen s' T (insert d X)" unfolding wf_gen_def by blast
  with s'(1) lf show ?thesis by blast
qed

section \<open>Linking a record\<close>

lemma link_heap_Some:
  "h z = Some rz \<Longrightarrow> \<exists>rz'. link_heap d hp h z = Some rz' \<and> dep_core rz' = dep_core rz \<and>
     prev rz' = (if z = d then None else if hp = Some z then Some d else prev rz) \<and>
     nxt rz' = (if z = d then hp else nxt rz)"
  by (simp add: link_heap_def dep_core_def)

lemma link_heap_Some':
  "link_heap d hp h z = Some rz' \<Longrightarrow> \<exists>rz. h z = Some rz \<and> dep_core rz' = dep_core rz"
  by (auto simp: link_heap_def dep_core_def split: option.splits)

lemma link_result:
  assumes "deps s d = Some r" and "objs s (dep_B r) = Some ob"
    and "incoming ob (content r) \<noteq> Some d"
    and "\<And>y. incoming ob (content r) = Some y \<Longrightarrow> deps s y \<noteq> None"
  shows "\<exists>s'. link d s = Inr s' \<and> deps s' = link_heap d (incoming ob (content r)) (deps s) \<and>
           objs s' = (objs s)(dep_B r \<mapsto> set_incoming (content r) (Some d) ob)"
proof (cases "incoming ob (content r)")
  case None
  with assms(1,2) show ?thesis
    by (auto simp: link_def prim_defs link_heap_def fun_eq_iff split: option.splits)
next
  case (Some y)
  with assms(1,2,3) assms(4) [of y] show ?thesis
    by (auto simp: link_def prim_defs link_heap_def fun_eq_iff split: option.splits)
qed

lemma link_wf:
  assumes wf: "wf_gen s T X" and d: "deps s d = Some r" and dx: "d \<in> X"
  shows "\<exists>s'. link d s = Inr s' \<and> wf_gen s' T (X - {d}) \<and> links_frame s s' \<and>
           (\<exists>ob'. objs s' (dep_B r) = Some ob' \<and> incoming ob' (content r) = Some d)"
proof -
  from wf obtain L where L: "wf_lists s L" "wf_members s L X"
    and st: "wf_alloc s" "wf_registry s" "wf_tree s T"
    unfolding wf_gen_def by blast
  let ?q = "dep_B r" and ?k = "content r"
  from L(2) d dx obtain ob where ob: "objs s ?q = Some ob" and nmem: "d \<notin> set (L ?q ?k)"
    unfolding wf_members_def by fastforce
  from L(1) ob have dl: "dll (deps s) None (L ?q ?k) (incoming ob ?k)"
    and di: "distinct (L ?q ?k)"
    and lab: "\<And>z. z \<in> set (L ?q ?k) \<Longrightarrow> \<exists>rz. deps s z = Some rz \<and> dep_B rz = ?q \<and> content rz = ?k"
    unfolding wf_lists_def by blast+
  have hin: "y \<in> set (L ?q ?k)" if "incoming ob ?k = Some y" for y
    using dll_head [OF dl] that by (auto split: list.splits)
  have hne: "incoming ob ?k \<noteq> Some d" using hin nmem by auto
  have hlive: "deps s y \<noteq> None" if "incoming ob ?k = Some y" for y
    using lab [OF hin [OF that]] by auto
  from link_result [OF d ob hne hlive] obtain s' where
    s': "link d s = Inr s'" "deps s' = link_heap d (incoming ob ?k) (deps s)"
      "objs s' = (objs s)(?q \<mapsto> set_incoming ?k (Some d) ob)"
    by auto
  have lf: "links_frame s s'" by (rule presD [OF links_frame_link s'(1)])
  define L' where "L' = (\<lambda>q' k'. if q' = ?q \<and> k' = ?k then d # L q' k' else L q' k')"
  have notin: "d \<notin> set (L q' k')" if "objs s q' \<noteq> None" for q' k'
  proof
    assume m: "d \<in> set (L q' k')"
    from that obtain ob0 where "objs s q' = Some ob0" by auto
    with L(1) m d have "dep_B r = q' \<and> content r = k'" unfolding wf_lists_def by fastforce
    with m nmem show False by simp
  qed
  have lists: "wf_lists s' L'"
    unfolding wf_lists_def
  proof (intro allI impI)
    fix q' ob' k' assume o': "objs s' q' = Some ob'"
    from links_frame_obj' [OF lf o'] obtain ob0 where ob0: "objs s q' = Some ob0" by blast
    from L(1) ob0 have dl0: "dll (deps s) None (L q' k') (incoming ob0 k')"
      and di0: "distinct (L q' k')"
      and lab0: "\<And>z. z \<in> set (L q' k') \<Longrightarrow>
              \<exists>rz. deps s z = Some rz \<and> dep_B rz = q' \<and> content rz = k'"
      unfolding wf_lists_def by blast+
    from notin [of q'] ob0 have dn: "d \<notin> set (L q' k')" by simp
    have labs: "\<forall>z\<in>set (L' q' k'). \<exists>rz. deps s' z = Some rz \<and> dep_B rz = q' \<and> content rz = k'"
    proof
      fix z assume z: "z \<in> set (L' q' k')"
      show "\<exists>rz. deps s' z = Some rz \<and> dep_B rz = q' \<and> content rz = k'"
      proof (cases "z = d")
        case True
        with z dn have "q' = ?q \<and> k' = ?k" by (auto simp: L'_def split: if_splits)
        with link_heap_Some [where h = "deps s" and z = d and d = d and hp = "incoming ob ?k", OF d]
          s'(2) True show ?thesis by (auto simp: dep_core_def)
      next
        case False
        with z have "z \<in> set (L q' k')" by (auto simp: L'_def split: if_splits)
        from lab0 [OF this] obtain rz where
          rz: "deps s z = Some rz" "dep_B rz = q'" "content rz = k'" by blast
        from link_heap_Some [where h = "deps s" and z = z and d = d and hp = "incoming ob ?k", OF rz(1)]
          s'(2) rz(2,3) show ?thesis by (auto simp: dep_core_def)
      qed
    qed
    have "dll (deps s') None (L' q' k') (incoming ob' k')"
    proof (cases "q' = ?q \<and> k' = ?k")
      case True
      then have f: "L' q' k' = d # L ?q ?k" by (simp add: L'_def)
      from o' s'(3) True have inc: "incoming ob' k' = Some d"
        by (auto simp: incoming_def set_incoming_def split: if_splits)
      from link_heap_Some [where h = "deps s" and z = d and d = d and hp = "incoming ob ?k", OF d]
      obtain rd where rd: "link_heap d (incoming ob ?k) (deps s) d = Some rd" "prev rd = None"
        "nxt rd = incoming ob ?k" by auto
      have "dll (link_heap d (incoming ob ?k) (deps s)) None (d # L ?q ?k) (Some d)"
      proof (rule dll_cons [where h' = "link_heap d (incoming ob ?k) (deps s)", OF dl di nmem rd])
        fix z assume z: "z \<in> set (L ?q ?k)"
        with nmem have zd: "z \<noteq> d" by auto
        from lab [OF z] obtain rz where rz: "deps s z = Some rz" by auto
        from link_heap_Some [where h = "deps s" and z = z and d = d and hp = "incoming ob ?k", OF rz]
          zd rz
        show "\<exists>rz rz'. deps s z = Some rz \<and> link_heap d (incoming ob ?k) (deps s) z = Some rz' \<and>
            prev rz' = (if incoming ob ?k = Some z then Some d else prev rz) \<and> nxt rz' = nxt rz"
          by auto
      qed
      with f inc s'(2) show ?thesis by simp
    next
      case False
      then have f: "L' q' k' = L q' k'" by (simp add: L'_def)
      from o' s'(3) ob0 ob False have inc: "incoming ob' k' = incoming ob0 k'"
        by (auto simp: incoming_def set_incoming_def split: if_splits)
      have "dll (link_heap d (incoming ob ?k) (deps s)) None (L q' k') (incoming ob0 k')"
      proof (rule dll_fields_cong [OF dl0])
        fix z assume z: "z \<in> set (L q' k')"
        from lab0 [OF z] obtain rz where rz: "deps s z = Some rz" "dep_B rz = q'" "content rz = k'"
          by blast
        from z dn have zd: "z \<noteq> d" by auto
        have n1: "incoming ob ?k \<noteq> Some z"
        proof
          assume "incoming ob ?k = Some z"
          from lab [OF hin [OF this]] rz False show False by auto
        qed
        from link_heap_Some [where h = "deps s" and z = z and d = d and hp = "incoming ob ?k", OF rz(1)]
          zd n1 rz(1)
        show "\<exists>rz rz'. deps s z = Some rz \<and> link_heap d (incoming ob ?k) (deps s) z = Some rz' \<and>
            prev rz' = prev rz \<and> nxt rz' = nxt rz" by auto
      qed
      with f inc s'(2) show ?thesis by simp
    qed
    moreover from di0 dn have "distinct (L' q' k')" by (auto simp: L'_def)
    ultimately show "dll (deps s') None (L' q' k') (incoming ob' k') \<and> distinct (L' q' k') \<and>
        (\<forall>d\<in>set (L' q' k'). \<exists>r. deps s' d = Some r \<and> dep_B r = q' \<and> content r = k')"
      using labs by simp
  qed
  have members: "wf_members s' L' (X - {d})"
    unfolding wf_members_def
  proof (intro allI impI)
    fix z rz' assume z: "deps s' z = Some rz'"
    from link_heap_Some' [where h = "deps s" and z = z and d = d and hp = "incoming ob ?k" and rz' = rz']
      z s'(2) obtain rz where
      rz: "deps s z = Some rz" "dep_core rz' = dep_core rz" by auto
    then have e: "dep_B rz' = dep_B rz" "content rz' = content rz" by (simp_all add: dep_core_def)
    from L(2) rz(1) have m: "objs s (dep_B rz) \<noteq> None"
      "z \<in> set (L (dep_B rz) (content rz)) \<longleftrightarrow> z \<notin> X"
      unfolding wf_members_def by blast+
    from m(1) links_frame_live_obj [OF lf] e have "objs s' (dep_B rz') \<noteq> None" by simp
    moreover from m(2) e rz(1) d dx
    have "z \<in> set (L' (dep_B rz') (content rz')) \<longleftrightarrow> z \<notin> X - {d}"
      by (auto simp: L'_def)
    ultimately show "objs s' (dep_B rz') \<noteq> None \<and>
        (z \<in> set (L' (dep_B rz') (content rz')) \<longleftrightarrow> z \<notin> X - {d})" by simp
  qed
  from st lf have "wf_alloc s'" "wf_registry s'" "wf_tree s' T"
    by (blast intro: wf_alloc_links_frame wf_registry_links_frame wf_tree_links_frame)+
  with lists members have "wf_gen s' T (X - {d})" unfolding wf_gen_def by blast
  moreover from s'(3) have "\<exists>ob'. objs s' ?q = Some ob' \<and> incoming ob' ?k = Some d"
    by (simp add: incoming_def set_incoming_def)
  ultimately show ?thesis using s'(1) lf by blast
qed

section \<open>Reading the invariant\<close>

lemma wf_treeD1:
  "wf_tree s T \<Longrightarrow> objs s p = Some ob \<Longrightarrow> dependencies ob = Some d \<Longrightarrow>
     \<exists>r. deps s d = Some r \<and> dep_A r = p \<and> parent r = None \<and> left r = None \<and> right r = None"
  unfolding wf_tree_def by meson

lemma wf_treeD2:
  "wf_tree s T \<Longrightarrow> deps s d = Some r \<Longrightarrow> d \<notin> T \<Longrightarrow> objs s (dep_A r) = Some ob \<Longrightarrow>
     dependencies ob = Some d"
  unfolding wf_tree_def by meson

lemma wf_listsD:
  "wf_lists s L \<Longrightarrow> objs s q = Some ob \<Longrightarrow>
     dll (deps s) None (L q k) (incoming ob k) \<and> distinct (L q k) \<and>
     (\<forall>d\<in>set (L q k). \<exists>r. deps s d = Some r \<and> dep_B r = q \<and> content r = k)"
  unfolding wf_lists_def by meson

lemma wf_lists_label:
  "wf_lists s L \<Longrightarrow> objs s q = Some ob \<Longrightarrow> d \<in> set (L q k) \<Longrightarrow>
     \<exists>r. deps s d = Some r \<and> dep_B r = q \<and> content r = k"
  using wf_listsD by meson

lemma wf_membersD:
  "wf_members s L X \<Longrightarrow> deps s d = Some r \<Longrightarrow>
     objs s (dep_B r) \<noteq> None \<and> (d \<in> set (L (dep_B r) (content r)) \<longleftrightarrow> d \<notin> X)"
  unfolding wf_members_def by meson

lemma wf_genD:
  "wf_gen s T X \<Longrightarrow> wf_alloc s \<and> wf_registry s \<and> wf_tree s T \<and>
     (\<exists>L. wf_lists s L \<and> wf_members s L X)"
  by (simp add: wf_gen_def)

lemma detached_notin:
  assumes "wf_lists s L" and "wf_members s L X" and "d \<in> X" and "objs s q = Some ob0"
  shows "d \<notin> set (L q k)"
proof
  assume m: "d \<in> set (L q k)"
  from wf_lists_label [OF assms(1,4) m] obtain r where
    r: "deps s d = Some r" "dep_B r = q" "content r = k" by blast
  from wf_membersD [OF assms(2) r(1)] assms(3) r(2,3) m show False by simp
qed

section \<open>Steps of invalidate and the invariant\<close>

lemma wf_gen_set_invalid:
  assumes "wf_gen s T X" and "objs s p = Some ob"
  shows "wf_gen (s\<lparr>objs := (objs s)(p \<mapsto> ob\<lparr>isValid := False\<rparr>)\<rparr>) T X"
proof -
  let ?s' = "s\<lparr>objs := (objs s)(p \<mapsto> ob\<lparr>isValid := False\<rparr>)\<rparr>"
  from assms obtain L where L: "wf_lists s L" "wf_members s L X"
    and st: "wf_alloc s" "wf_registry s" "wf_tree s T"
    unfolding wf_gen_def by blast
  from st(1) assms(2) have 1: "wf_alloc ?s'" by (auto simp: wf_alloc_def)
  from st(2) assms(2) have 2: "wf_registry ?s'" by (auto simp: wf_registry_def)
  from st(3) assms(2) have 3: "wf_tree ?s' T"
    unfolding wf_tree_def by (auto split: if_splits)
  from L(1) assms(2) have 4: "wf_lists ?s' L"
    unfolding wf_lists_def by (auto simp: incoming_def split: if_splits)
  from L(2) assms(2) have 5: "wf_members ?s' L X"
    unfolding wf_members_def by auto
  from 1 2 3 4 5 show ?thesis unfolding wf_gen_def by blast
qed

lemma wf_gen_clear_dependencies:
  assumes "wf_gen s T X" and "objs s p = Some ob"
  shows "wf_gen (s\<lparr>objs := (objs s)(p \<mapsto> ob\<lparr>dependencies := None\<rparr>)\<rparr>)
           (case dependencies ob of None \<Rightarrow> T | Some d \<Rightarrow> insert d T) X"
proof -
  let ?s' = "s\<lparr>objs := (objs s)(p \<mapsto> ob\<lparr>dependencies := None\<rparr>)\<rparr>"
  let ?T' = "case dependencies ob of None \<Rightarrow> T | Some d \<Rightarrow> insert d T"
  from assms obtain L where L: "wf_lists s L" "wf_members s L X"
    and st: "wf_alloc s" "wf_registry s" "wf_tree s T"
    unfolding wf_gen_def by blast
  from st(1) assms(2) have 1: "wf_alloc ?s'" by (auto simp: wf_alloc_def)
  from st(2) assms(2) have 2: "wf_registry ?s'" by (auto simp: wf_registry_def)
  have 3: "wf_tree ?s' ?T'"
    unfolding wf_tree_def
  proof (intro conjI allI impI)
    fix q ob' d assume "objs ?s' q = Some ob'" "dependencies ob' = Some d"
    with st(3) assms(2)
    show "\<exists>r. deps ?s' d = Some r \<and> dep_A r = q \<and> parent r = None \<and> left r = None \<and>
             right r = None"
      unfolding wf_tree_def by (auto split: if_splits)
  next
    fix d r ob' assume h: "deps ?s' d = Some r" "d \<notin> ?T'" "objs ?s' (dep_A r) = Some ob'"
    from h(2) have dT: "d \<notin> T" by (auto split: option.splits)
    show "dependencies ob' = Some d"
    proof (cases "dep_A r = p")
      case True
      with st(3) h(1) dT assms(2) have "dependencies ob = Some d" unfolding wf_tree_def by auto
      with h(2) show ?thesis by simp
    next
      case False
      with st(3) h dT show ?thesis unfolding wf_tree_def by auto
    qed
  qed
  from L(1) assms(2) have 4: "wf_lists ?s' L"
    unfolding wf_lists_def by (auto simp: incoming_def split: if_splits)
  from L(2) assms(2) have 5: "wf_members ?s' L X"
    unfolding wf_members_def by auto
  from 1 2 3 4 5 show ?thesis unfolding wf_gen_def by blast
qed

lemma wf_gen_delete_dep:
  assumes "wf_gen s T X" and "d \<in> X"
    and "\<And>p ob. objs s p = Some ob \<Longrightarrow> dependencies ob \<noteq> Some d"
  shows "wf_gen (delete_dep d s) (T - {d}) (X - {d})"
proof -
  let ?s' = "delete_dep d s"
  from assms obtain L where L: "wf_lists s L" "wf_members s L X"
    and st: "wf_alloc s" "wf_registry s" "wf_tree s T"
    unfolding wf_gen_def by blast
  have ob_eq: "objs ?s' = objs s" by (simp add: delete_dep_def)
  have dep_eq: "deps ?s' z = (if z = d then None else deps s z)" for z
    by (simp add: delete_dep_def)
  from st(1) have 1: "wf_alloc ?s'" by (simp add: wf_alloc_def delete_dep_def)
  from st(2) have 2: "wf_registry ?s'" by (simp add: wf_registry_def delete_dep_def)
  have 3: "wf_tree ?s' (T - {d})"
    unfolding wf_tree_def
  proof (intro conjI allI impI)
    fix q ob' d' assume h: "objs ?s' q = Some ob'" "dependencies ob' = Some d'"
    then have o: "objs s q = Some ob'" by (simp add: ob_eq)
    from assms(3) [OF o] h(2) have ne: "d' \<noteq> d" by auto
    from wf_treeD1 [OF st(3) o h(2)] ne
    show "\<exists>r. deps ?s' d' = Some r \<and> dep_A r = q \<and> parent r = None \<and> left r = None \<and>
             right r = None"
      by (simp add: dep_eq)
  next
    fix d' r ob' assume h: "deps ?s' d' = Some r" "d' \<notin> T - {d}" "objs ?s' (dep_A r) = Some ob'"
    from h(1) have ne: "d' \<noteq> d" and dr: "deps s d' = Some r"
      by (simp_all add: dep_eq split: if_splits)
    from h(2) ne have nt: "d' \<notin> T" by simp
    from h(3) have "objs s (dep_A r) = Some ob'" by (simp add: ob_eq)
    from wf_treeD2 [OF st(3) dr nt this] show "dependencies ob' = Some d'" .
  qed
  have 4: "wf_lists ?s' L"
    unfolding wf_lists_def
  proof (intro allI impI)
    fix q ob' k assume "objs ?s' q = Some ob'"
    then have o: "objs s q = Some ob'" by (simp add: ob_eq)
    from wf_listsD [OF L(1) o, of k] have dl0: "dll (deps s) None (L q k) (incoming ob' k)"
      and di0: "distinct (L q k)" by simp_all
    note dn = detached_notin [OF L assms(2) o, of k]
    have cong: "\<exists>rz. deps s z = Some rz \<and> deps ?s' z = Some rz \<and> dep_B rz = q \<and> content rz = k"
      if z: "z \<in> set (L q k)" for z
    proof -
      from z dn have "z \<noteq> d" by auto
      with wf_lists_label [OF L(1) o z] show ?thesis by (auto simp: dep_eq)
    qed
    have "dll (deps ?s') None (L q k) (incoming ob' k)"
    proof (rule dll_fields_cong [OF dl0])
      fix z assume z: "z \<in> set (L q k)"
      from cong [OF z]
      show "\<exists>rz rz'. deps s z = Some rz \<and> deps ?s' z = Some rz' \<and> prev rz' = prev rz \<and>
          nxt rz' = nxt rz" by auto
    qed
    moreover have "\<forall>z\<in>set (L q k). \<exists>r. deps ?s' z = Some r \<and> dep_B r = q \<and> content r = k"
      using cong by auto
    ultimately show "dll (deps ?s') None (L q k) (incoming ob' k) \<and> distinct (L q k) \<and>
        (\<forall>d\<in>set (L q k). \<exists>r. deps ?s' d = Some r \<and> dep_B r = q \<and> content r = k)"
      using di0 by simp
  qed
  have 5: "wf_members ?s' L (X - {d})"
    unfolding wf_members_def
  proof (intro allI impI)
    fix z r assume "deps ?s' z = Some r"
    then have ne: "z \<noteq> d" and dr: "deps s z = Some r" by (simp_all add: dep_eq split: if_splits)
    from wf_membersD [OF L(2) dr] ne
    show "objs ?s' (dep_B r) \<noteq> None \<and> (z \<in> set (L (dep_B r) (content r)) \<longleftrightarrow> z \<notin> X - {d})"
      by (simp add: ob_eq)
  qed
  from 1 2 3 4 5 show ?thesis unfolding wf_gen_def by blast
qed

lemma objs_core_frame_refl: "objs_core_frame s s"
  by (simp add: objs_core_frame_def)

lemma objs_core_frame_trans:
  "objs_core_frame a b \<Longrightarrow> objs_core_frame b c \<Longrightarrow> objs_core_frame a c"
  by (simp add: objs_core_frame_def)

lemma preorder_objs_core_frame: "preorder_rel objs_core_frame"
  unfolding preorder_rel_def by (meson objs_core_frame_refl objs_core_frame_trans)

lemma objs_core_frame_modify_dep: "pres objs_core_frame (modify_dep d F)"
  by (auto simp: pres_def modify_dep_def objs_core_frame_def split: option.splits)

lemma objs_core_frame_unlink: "pres objs_core_frame (unlink d)"
  by (rule pres_weaken [OF links_frame_unlink]) (simp add: links_frame_def objs_core_frame_def)

lemma objs_core_frame_delete_dep: "objs_core_frame s (delete_dep d s)"
  by (simp add: objs_core_frame_def delete_dep_def)

lemma objs_core_frame_drop_dependencies: "pres objs_core_frame (drop_dependencies n d)"
proof (induction n arbitrary: d)
  case 0
  show ?case by (simp add: pres_def)
next
  case (Suc n)
  show ?case
  proof (cases d)
    case None
    then show ?thesis by (simp add: pres_def objs_core_frame_refl)
  next
    case (Some x)
    show ?thesis unfolding Some drop_dependencies.simps
      by (intro pres_rules preorder_objs_core_frame objs_core_frame_modify_dep
            objs_core_frame_unlink Suc.IH pres_after objs_core_frame_delete_dep)
  qed
qed

text \<open>The last phase of invalidate on a well-formed state.\<close>

lemma drop_phase_wf:
  assumes wf: "wf s" and ob: "objs s p = Some ob"
    and run: "drop_dependencies n (dependencies ob)
                (s\<lparr>objs := (objs s)(p \<mapsto> ob\<lparr>dependencies := None\<rparr>)\<rparr>) = Inr s'"
  shows "wf s' \<and> (\<forall>z. deps s' z = None \<longleftrightarrow> deps s z = None \<or> dependencies ob = Some z)"
proof -
  let ?s3 = "s\<lparr>objs := (objs s)(p \<mapsto> ob\<lparr>dependencies := None\<rparr>)\<rparr>"
  from run obtain m where n: "n = Suc m" by (cases n) auto
  from wf ob have w3: "wf_gen ?s3 (case dependencies ob of None \<Rightarrow> {} | Some d \<Rightarrow> insert d {}) {}"
    unfolding wf_def by (rule wf_gen_clear_dependencies)
  show ?thesis
  proof (cases "dependencies ob")
    case None
    with run n have "s' = ?s3" by simp
    with w3 None show ?thesis by (simp add: wf_def)
  next
    case (Some d)
    from wf have t: "wf_tree s {}" by (simp add: wf_def wf_gen_def)
    from wf_treeD1 [OF t ob Some] obtain r where
      r: "deps s d = Some r" "dep_A r = p" "parent r = None" "left r = None" "right r = None"
      by blast
    from r(1) have r3: "deps ?s3 d = Some r" by simp
    from w3 Some have w3': "wf_gen ?s3 {d} {}" by simp
    from unlink_wf [OF w3' r3] obtain s4 where
      s4: "unlink d ?s3 = Inr s4" "wf_gen s4 {d} {d}" "links_frame ?s3 s4" by auto
    have nodep: "dependencies ob' \<noteq> Some d" if o4: "objs s4 q = Some ob'" for q ob'
    proof
      assume e: "dependencies ob' = Some d"
      from links_frame_obj' [OF s4(3) o4] obtain ob3 where
        o3: "objs ?s3 q = Some ob3" "obj_core ob' = obj_core ob3" by blast
      with e have e3: "dependencies ob3 = Some d" by (simp add: obj_core_def)
      with o3(1) have qp: "q \<noteq> p" by (auto split: if_splits)
      with o3(1) have "objs s q = Some ob3" by simp
      from wf_treeD1 [OF t this e3] r(1,2) have "q = p" by auto
      with qp show False by simp
    qed
    from wf_gen_delete_dep [OF s4(2) _ nodep] have w5: "wf (delete_dep d s4)"
      by (simp add: wf_def)
    from run n Some r3 r(4,5) s4(1) have run': "drop_dependencies m None (delete_dep d s4) = Inr s'"
      by (simp add: read_dep_def)
    then obtain m' where "m = Suc m'" by (cases m) auto
    with run' have e: "s' = delete_dep d s4" by simp
    have "deps s' z = None \<longleftrightarrow> deps s z = None \<or> z = d" for z
      using links_frame_live_dep [OF s4(3), of z] e by (auto simp: delete_dep_def)
    with w5 e Some show ?thesis by auto
  qed
qed

section \<open>The cascade preserves the invariant\<close>

lemma invalidateIncoming_loop_Suc_cases:
  assumes "invalidateIncoming_loop (Suc n) k p s = Inr s'"
  obtains (finished) ob where "objs s p = Some ob" "incoming ob k = None" "s' = s"
  | (step) ob d r s1 where "objs s p = Some ob" "incoming ob k = Some d" "deps s d = Some r"
      "invalidate n (dep_A r) s = Inr s1" "invalidateIncoming_loop n k p s1 = Inr s'"
  using assms
  by (auto simp: seq_eq_Inr read_obj_def read_dep_def split: option.splits)

lemma invalidateIncoming_Suc_cases:
  assumes "invalidateIncoming (Suc n) p c s = Inr s'"
  obtains s1 where "invalidateIncoming_loop n True p s = Inr s1"
    "if c then s' = s1 else invalidateIncoming_loop n False p s1 = Inr s'"
  using assms by (auto simp: seq_eq_Inr split: if_splits)

lemma invalidate_Suc_cases:
  assumes "invalidate (Suc n) p s = Inr s'"
  obtains ob s2 ob2 where "objs s p = Some ob"
    "if isValid ob
     then invalidateIncoming n p True (s\<lparr>objs := (objs s)(p \<mapsto> ob\<lparr>isValid := False\<rparr>)\<rparr>) = Inr s2
     else s2 = s"
    "objs s2 p = Some ob2"
    "drop_dependencies n (dependencies ob2)
       (s2\<lparr>objs := (objs s2)(p \<mapsto> ob2\<lparr>dependencies := None\<rparr>)\<rparr>) = Inr s'"
  using assms
  by (auto simp: seq_eq_Inr read_obj_def modify_obj_def split: option.splits if_splits)

lemma invalidateIncoming_loop_exit:
  "invalidateIncoming_loop n k p s = Inr s' \<Longrightarrow>
     \<exists>ob'. objs s' p = Some ob' \<and> incoming ob' k = None"
proof (induction n arbitrary: s)
  case 0
  then show ?case by simp
next
  case (Suc n)
  from Suc.prems show ?case
  proof (cases rule: invalidateIncoming_loop_Suc_cases)
    case (finished ob)
    then show ?thesis by simp
  next
    case (step ob d r s1)
    from Suc.IH [OF step(5)] show ?thesis .
  qed
qed

lemma wf_cascade:
  "wf s \<Longrightarrow>
     (\<forall>s'. invalidateIncoming_loop n k p s = Inr s' \<longrightarrow> wf s') \<and>
     (\<forall>s'. invalidateIncoming n p c s = Inr s' \<longrightarrow> wf s') \<and>
     (\<forall>s'. invalidate n p s = Inr s' \<longrightarrow> wf s')"
proof (induction n arbitrary: s k p c)
  case 0
  show ?case by simp
next
  case (Suc n)
  note wf = Suc.prems
  have ih_loop: "wf t \<Longrightarrow> invalidateIncoming_loop n k' p' t = Inr t' \<Longrightarrow> wf t'" for t t' k' p'
    using Suc.IH [of t k' p' c] by blast
  have ih_inc: "wf t \<Longrightarrow> invalidateIncoming n p' c' t = Inr t' \<Longrightarrow> wf t'" for t t' c' p'
    using Suc.IH [of t k p' c'] by blast
  have ih_inv: "wf t \<Longrightarrow> invalidate n p' t = Inr t' \<Longrightarrow> wf t'" for t t' p'
    using Suc.IH [of t k p' c] by blast
  have 1: "wf s'" if "invalidateIncoming_loop (Suc n) k p s = Inr s'" for s'
    using that
  proof (cases rule: invalidateIncoming_loop_Suc_cases)
    case (finished ob)
    with wf show ?thesis by simp
  next
    case (step ob d r s1)
    from ih_inv [OF wf step(4)] have "wf s1" .
    from ih_loop [OF this step(5)] show ?thesis .
  qed
  have 2: "wf s'" if "invalidateIncoming (Suc n) p c s = Inr s'" for s'
    using that
  proof (cases rule: invalidateIncoming_Suc_cases)
    case (1 s1)
    from ih_loop [OF wf 1(1)] have w1: "wf s1" .
    show ?thesis
    proof (cases c)
      case True
      with 1(2) w1 show ?thesis by simp
    next
      case False
      with 1(2) have "invalidateIncoming_loop n False p s1 = Inr s'" by simp
      from ih_loop [OF w1 this] show ?thesis .
    qed
  qed
  have 3: "wf s'" if "invalidate (Suc n) p s = Inr s'" for s'
    using that
  proof (cases rule: invalidate_Suc_cases)
    case (1 ob s2 ob2)
    have w2: "wf s2"
    proof (cases "isValid ob")
      case True
      from wf 1(1) have "wf (s\<lparr>objs := (objs s)(p \<mapsto> ob\<lparr>isValid := False\<rparr>)\<rparr>)"
        unfolding wf_def by (rule wf_gen_set_invalid)
      from ih_inc [OF this] 1(2) True show ?thesis by simp
    next
      case False
      with 1(2) wf show ?thesis by simp
    qed
    from drop_phase_wf [OF w2 1(3) 1(4)] show ?thesis by simp
  qed
  from 1 2 3 show ?case by blast
qed

lemma wf_invalidateIncoming_loop:
  "wf s \<Longrightarrow> invalidateIncoming_loop n k p s = Inr s' \<Longrightarrow> wf s'"
  using wf_cascade by blast

lemma wf_invalidateIncoming:
  "wf s \<Longrightarrow> invalidateIncoming n p c s = Inr s' \<Longrightarrow> wf s'"
  using wf_cascade by blast

lemma wf_invalidate:
  "wf s \<Longrightarrow> invalidate n p s = Inr s' \<Longrightarrow> wf s'"
  using wf_cascade by blast

section \<open>Freed records have invalid sources\<close>

lemma freed_okD:
  "freed_ok s s' \<Longrightarrow> deps s d = Some r \<Longrightarrow> deps s' d = None \<Longrightarrow>
     \<exists>ob'. objs s' (dep_A r) = Some ob' \<and> \<not> isValid ob'"
  unfolding freed_ok_def by meson

lemma freed_ok_refl: "freed_ok s s"
  by (simp add: freed_ok_def)

lemma frame_keeps_invalid:
  assumes "frame s s'" and "objs s p = Some ob" and "\<not> isValid ob"
  shows "\<exists>ob'. objs s' p = Some ob' \<and> \<not> isValid ob'"
proof (cases "objs s' p")
  case None
  with frameD2 [OF assms(1), of p] assms(2) show ?thesis by simp
next
  case (Some ob')
  with frameD3 [OF assms(1,2) Some] assms(3) show ?thesis by auto
qed

lemma freed_ok_trans:
  assumes ab: "cascade_frame a b" and bc: "cascade_frame b c"
    and fab: "freed_ok a b" and fbc: "freed_ok b c"
  shows "freed_ok a c"
  unfolding freed_ok_def
proof (intro allI impI)
  fix d r assume h: "deps a d = Some r" "deps c d = None"
  show "\<exists>ob'. objs c (dep_A r) = Some ob' \<and> \<not> isValid ob'"
  proof (cases "deps b d")
    case None
    from freed_okD [OF fab h(1) None] obtain ob1 where
      "objs b (dep_A r) = Some ob1" "\<not> isValid ob1" by blast
    from frame_keeps_invalid [OF cascade_frameD1 [OF bc] this] show ?thesis .
  next
    case (Some r1)
    from cascade_frameD4 [OF ab h(1) Some] have "dep_A r1 = dep_A r" by simp
    with freed_okD [OF fbc Some h(2)] show ?thesis by simp
  qed
qed

lemma invalidate_result:
  assumes "invalidate n p s = Inr s'"
  shows "\<exists>ob'. objs s' p = Some ob' \<and> \<not> isValid ob' \<and> dependencies ob' = None"
proof (cases n)
  case 0
  with assms show ?thesis by simp
next
  case (Suc m)
  with assms have "invalidate (Suc m) p s = Inr s'" by simp
  then show ?thesis
  proof (cases rule: invalidate_Suc_cases)
    case (1 ob s2 ob2)
    have inv2: "\<not> isValid ob2"
    proof (cases "isValid ob")
      case True
      let ?s1 = "s\<lparr>objs := (objs s)(p \<mapsto> ob\<lparr>isValid := False\<rparr>)\<rparr>"
      from 1(2) True have "invalidateIncoming m p True ?s1 = Inr s2" by simp
      from cascade_frameD1 [OF presD [OF cascade_frame_invalidateIncoming this]]
      have "frame ?s1 s2" .
      from frame_keeps_invalid [OF this, of p "ob\<lparr>isValid := False\<rparr>"] 1(3)
      show ?thesis by simp
    next
      case False
      with 1(1,2,3) show ?thesis by simp
    qed
    let ?s3 = "s2\<lparr>objs := (objs s2)(p \<mapsto> ob2\<lparr>dependencies := None\<rparr>)\<rparr>"
    from presD [OF objs_core_frame_drop_dependencies 1(4)]
    have "map_option obj_core (objs s' p) = map_option obj_core (objs ?s3 p)"
      by (simp add: objs_core_frame_def)
    with inv2 show ?thesis by (cases "objs s' p") (auto simp: obj_core_def)
  qed
qed

lemma freed_cascade:
  "wf s \<Longrightarrow>
     (\<forall>s'. invalidateIncoming_loop n k p s = Inr s' \<longrightarrow> freed_ok s s') \<and>
     (\<forall>s'. invalidateIncoming n p c s = Inr s' \<longrightarrow> freed_ok s s') \<and>
     (\<forall>s'. invalidate n p s = Inr s' \<longrightarrow> freed_ok s s')"
proof (induction n arbitrary: s k p c)
  case 0
  show ?case by simp
next
  case (Suc n)
  note wf = Suc.prems
  have ih_loop: "wf t \<Longrightarrow> invalidateIncoming_loop n k' p' t = Inr t' \<Longrightarrow> freed_ok t t'"
    for t t' k' p' using Suc.IH [of t k' p' c] by blast
  have ih_inc: "wf t \<Longrightarrow> invalidateIncoming n p' c' t = Inr t' \<Longrightarrow> freed_ok t t'"
    for t t' c' p' using Suc.IH [of t k p' c'] by blast
  have ih_inv: "wf t \<Longrightarrow> invalidate n p' t = Inr t' \<Longrightarrow> freed_ok t t'" for t t' p'
    using Suc.IH [of t k p' c] by blast
  have 1: "freed_ok s s'" if "invalidateIncoming_loop (Suc n) k p s = Inr s'" for s'
    using that
  proof (cases rule: invalidateIncoming_loop_Suc_cases)
    case (finished ob)
    then show ?thesis by (simp add: freed_ok_refl)
  next
    case (step ob d r s1)
    from wf_invalidate [OF wf step(4)] have w1: "wf s1" .
    from freed_ok_trans [OF presD [OF cascade_frame_invalidate step(4)]
        presD [OF cascade_frame_invalidateIncoming_loop step(5)]
        ih_inv [OF wf step(4)] ih_loop [OF w1 step(5)]]
    show ?thesis .
  qed
  have 2: "freed_ok s s'" if "invalidateIncoming (Suc n) p c s = Inr s'" for s'
    using that
  proof (cases rule: invalidateIncoming_Suc_cases)
    case (1 s1)
    from wf_invalidateIncoming_loop [OF wf 1(1)] have w1: "wf s1" .
    show ?thesis
    proof (cases c)
      case True
      with 1(2) ih_loop [OF wf 1(1)] show ?thesis by simp
    next
      case False
      with 1(2) have l2: "invalidateIncoming_loop n False p s1 = Inr s'" by simp
      from freed_ok_trans [OF presD [OF cascade_frame_invalidateIncoming_loop 1(1)]
          presD [OF cascade_frame_invalidateIncoming_loop l2]
          ih_loop [OF wf 1(1)] ih_loop [OF w1 l2]]
      show ?thesis .
    qed
  qed
  have 3: "freed_ok s s'" if run: "invalidate (Suc n) p s = Inr s'" for s'
    using that
  proof (cases rule: invalidate_Suc_cases)
    case (1 ob s2 ob2)
    let ?s1 = "s\<lparr>objs := (objs s)(p \<mapsto> ob\<lparr>isValid := False\<rparr>)\<rparr>"
    from wf 1(1) have w1: "wf ?s1" unfolding wf_def by (rule wf_gen_set_invalid)
    have w2: "wf s2"
      using 1(2) w1 wf wf_invalidateIncoming by (cases "isValid ob") auto
    have f2: "freed_ok s s2"
    proof (cases "isValid ob")
      case True
      with 1(2) have "invalidateIncoming n p True ?s1 = Inr s2" by simp
      from ih_inc [OF w1 this] show ?thesis by (simp add: freed_ok_def)
    next
      case False
      with 1(2) show ?thesis by (simp add: freed_ok_refl)
    qed
    from invalidate_result [OF run] obtain ob' where
      ob': "objs s' p = Some ob'" "\<not> isValid ob'" by blast
    from drop_phase_wf [OF w2 1(3) 1(4)]
    have fr: "\<And>z. deps s' z = None \<longleftrightarrow> deps s2 z = None \<or> dependencies ob2 = Some z"
      by simp
    from w2 have t2: "wf_tree s2 {}" by (simp add: wf_def wf_gen_def)
    have cf: "cascade_frame s s'" by (rule presD [OF cascade_frame_invalidate run])
    show ?thesis
      unfolding freed_ok_def
    proof (intro allI impI)
      fix d r assume h: "deps s d = Some r" "deps s' d = None"
      show "\<exists>ob'. objs s' (dep_A r) = Some ob' \<and> \<not> isValid ob'"
      proof (cases "deps s2 d")
        case None
        from freed_okD [OF f2 h(1) None] obtain o2 where
          o2: "objs s2 (dep_A r) = Some o2" "\<not> isValid o2" by blast
        let ?s3 = "s2\<lparr>objs := (objs s2)(p \<mapsto> ob2\<lparr>dependencies := None\<rparr>)\<rparr>"
        from presD [OF objs_core_frame_drop_dependencies 1(4)]
        have "map_option obj_core (objs s' (dep_A r)) = map_option obj_core (objs ?s3 (dep_A r))"
          by (simp add: objs_core_frame_def)
        with o2 1(3) show ?thesis
          by (cases "objs s' (dep_A r)") (auto simp: obj_core_def split: if_splits)
      next
        case (Some r2)
        with fr [of d] h(2) have "dependencies ob2 = Some d" by simp
        from wf_treeD1 [OF t2 1(3) this] Some have "dep_A r2 = p" by auto
        moreover have "dep_A r2 = dep_A r"
        proof (cases "isValid ob")
          case True
          with 1(2) have "invalidateIncoming n p True ?s1 = Inr s2" by simp
          from cascade_frameD4 [OF presD [OF cascade_frame_invalidateIncoming this], of d r r2]
            h(1) Some show ?thesis by simp
        next
          case False
          with 1(2) h(1) Some show ?thesis by simp
        qed
        ultimately show ?thesis using ob' by simp
      qed
    qed
  qed
  from 1 2 3 show ?case by blast
qed

section \<open>What the cascade reaches\<close>

lemma changed_trans: "changed a c x \<Longrightarrow> changed a b x \<or> changed b c x"
  by (auto simp: changed_def)

lemma kedge_mono:
  assumes "cascade_frame s s'"
  shows "kedge s' k \<subseteq> kedge s k"
proof
  fix e assume "e \<in> kedge s' k"
  then obtain d r' where r': "deps s' d = Some r'" "e = (dep_A r', dep_B r')" "content r' = k"
    by (auto simp: kedge_def)
  from cascade_frameD3 [OF assms, of d] r'(1) obtain r where r: "deps s d = Some r"
    by (cases "deps s d") auto
  from cascade_frameD4 [OF assms r r'(1)] r'(2,3) r show "e \<in> kedge s k"
    by (auto simp: kedge_def)
qed

lemma cedge_mono: "cascade_frame s s' \<Longrightarrow> cedge s' \<subseteq> cedge s"
  by (simp add: cedge_def kedge_mono)

lemma head_label:
  assumes "wf s" and "objs s p = Some ob" and "incoming ob k = Some d" and "deps s d = Some r"
  shows "dep_B r = p \<and> content r = k"
proof -
  from assms(1) obtain L where L: "wf_lists s L" by (auto simp: wf_def wf_gen_def)
  from wf_listsD [OF L assms(2), of k] have dl: "dll (deps s) None (L p k) (incoming ob k)"
    by simp
  from dll_head [OF dl] assms(3) have "d \<in> set (L p k)" by (auto split: list.splits)
  from wf_lists_label [OF L assms(2) this] assms(4) show ?thesis by simp
qed

lemma reach_cascade:
  "wf s \<Longrightarrow>
     (\<forall>s' x. invalidateIncoming_loop n k p s = Inr s' \<longrightarrow> changed s s' x \<longrightarrow>
        (\<exists>a. (a, p) \<in> kedge s k \<and> (x, a) \<in> (cedge s)\<^sup>*)) \<and>
     (\<forall>s' x. invalidateIncoming n p True s = Inr s' \<longrightarrow> changed s s' x \<longrightarrow>
        (x, p) \<in> (cedge s)\<^sup>+) \<and>
     (\<forall>s' x. invalidate n p s = Inr s' \<longrightarrow> changed s s' x \<longrightarrow> (x, p) \<in> (cedge s)\<^sup>*)"
proof (induction n arbitrary: s k p)
  case 0
  show ?case by simp
next
  case (Suc n)
  note wf = Suc.prems
  have ih_loop: "wf t \<Longrightarrow> invalidateIncoming_loop n k' p' t = Inr t' \<Longrightarrow> changed t t' x \<Longrightarrow>
      \<exists>a. (a, p') \<in> kedge t k' \<and> (x, a) \<in> (cedge t)\<^sup>*"
    for t t' k' p' x using Suc.IH [of t k' p'] by blast
  have ih_inc: "wf t \<Longrightarrow> invalidateIncoming n p' True t = Inr t' \<Longrightarrow> changed t t' x \<Longrightarrow>
      (x, p') \<in> (cedge t)\<^sup>+"
    for t t' p' x using Suc.IH [of t k p'] by blast
  have ih_inv: "wf t \<Longrightarrow> invalidate n p' t = Inr t' \<Longrightarrow> changed t t' x \<Longrightarrow>
      (x, p') \<in> (cedge t)\<^sup>*"
    for t t' p' x using Suc.IH [of t k p'] by blast
  have 1: "\<exists>a. (a, p) \<in> kedge s k \<and> (x, a) \<in> (cedge s)\<^sup>*"
    if run: "invalidateIncoming_loop (Suc n) k p s = Inr s'" and ch: "changed s s' x" for s' x
    using run
  proof (cases rule: invalidateIncoming_loop_Suc_cases)
    case (finished ob)
    with ch show ?thesis by (simp add: changed_def)
  next
    case (step ob d r s1)
    from head_label [OF wf step(1,2,3)] step(3) have e: "(dep_A r, p) \<in> kedge s k"
      by (auto simp: kedge_def)
    from wf_invalidate [OF wf step(4)] have w1: "wf s1" .
    have cf: "cascade_frame s s1" by (rule presD [OF cascade_frame_invalidate step(4)])
    from changed_trans [OF ch, of s1] show ?thesis
    proof
      assume "changed s s1 x"
      from ih_inv [OF wf step(4) this] e show ?thesis by blast
    next
      assume "changed s1 s' x"
      from ih_loop [OF w1 step(5) this] obtain a where
        a: "(a, p) \<in> kedge s1 k" "(x, a) \<in> (cedge s1)\<^sup>*" by blast
      from a(1) kedge_mono [OF cf] have "(a, p) \<in> kedge s k" by blast
      moreover from a(2) rtrancl_mono [OF cedge_mono [OF cf]] have "(x, a) \<in> (cedge s)\<^sup>*"
        by blast
      ultimately show ?thesis by blast
    qed
  qed
  have 2: "(x, p) \<in> (cedge s)\<^sup>+"
    if run: "invalidateIncoming (Suc n) p True s = Inr s'" and ch: "changed s s' x" for s' x
    using run
  proof (cases rule: invalidateIncoming_Suc_cases)
    case (1 s1)
    then have "s' = s1" by simp
    with ih_loop [OF wf 1(1)] ch obtain a where
      "(a, p) \<in> kedge s True" "(x, a) \<in> (cedge s)\<^sup>*" by blast
    then show ?thesis by (simp add: cedge_def rtrancl_into_trancl1)
  qed
  have 3: "(x, p) \<in> (cedge s)\<^sup>*"
    if run: "invalidate (Suc n) p s = Inr s'" and ch: "changed s s' x" for s' x
    using run
  proof (cases rule: invalidate_Suc_cases)
    case (1 ob s2 ob2)
    let ?s1 = "s\<lparr>objs := (objs s)(p \<mapsto> ob\<lparr>isValid := False\<rparr>)\<rparr>"
    let ?s3 = "s2\<lparr>objs := (objs s2)(p \<mapsto> ob2\<lparr>dependencies := None\<rparr>)\<rparr>"
    from wf 1(1) have w1: "wf ?s1" unfolding wf_def by (rule wf_gen_set_invalid)
    have e1: "cedge ?s1 = cedge s" by (simp add: cedge_def kedge_def)
    show ?thesis
    proof (cases "x = p")
      case True
      then show ?thesis by simp
    next
      case False
      from presD [OF objs_core_frame_drop_dependencies 1(4)]
      have "map_option obj_core (objs s' x) = map_option obj_core (objs ?s3 x)"
        by (simp add: objs_core_frame_def)
      with False ch have c2: "changed s s2 x" by (simp add: changed_def)
      show ?thesis
      proof (cases "isValid ob")
        case True
        with 1(2) have r2: "invalidateIncoming n p True ?s1 = Inr s2" by simp
        from c2 False have "changed ?s1 s2 x" by (simp add: changed_def)
        from ih_inc [OF w1 r2 this] e1 show ?thesis by simp
      next
        case False
        with 1(2) c2 show ?thesis by (simp add: changed_def)
      qed
    qed
  qed
  from 1 2 3 show ?case by blast
qed


lemma reach_invalidate:
  "wf s \<Longrightarrow> invalidate n p s = Inr s' \<Longrightarrow> changed s s' x \<Longrightarrow> (x, p) \<in> (cedge s)\<^sup>*"
  using reach_cascade by blast


lemma freed_invalidate:
  "wf s \<Longrightarrow> invalidate n p s = Inr s' \<Longrightarrow> freed_ok s s'"
  using freed_cascade by blast



section \<open>New and upgraded edges and the invariant\<close>


lemma wf_gen_new_edge:
  assumes wf: "wf_gen s T X" and p: "objs s p = Some ob" "dependencies ob = None"
    and q: "objs s q \<noteq> None"
  shows "wf_gen (s\<lparr>deps := (deps s)(fresh_dep s \<mapsto> new_Dependency p q c None),
                 fresh_dep := Suc (fresh_dep s),
                 objs := (objs s)(p \<mapsto> ob\<lparr>dependencies := Some (fresh_dep s)\<rparr>)\<rparr>)
           T (insert (fresh_dep s) X)"
proof -
  let ?d = "fresh_dep s"
  let ?r = "new_Dependency p q c None"
  define s' where "s' = s\<lparr>deps := (deps s)(?d \<mapsto> ?r), fresh_dep := Suc ?d,
                objs := (objs s)(p \<mapsto> ob\<lparr>dependencies := Some ?d\<rparr>)\<rparr>"
  from assms obtain L where L: "wf_lists s L" "wf_members s L X"
    and st: "wf_alloc s" "wf_registry s" "wf_tree s T"
    unfolding wf_gen_def by blast
  from st(1) have fresh: "deps s ?d = None" by (auto simp: wf_alloc_def)
  have dep_eq: "deps s' z = (if z = ?d then Some ?r else deps s z)" for z
    by (simp add: s'_def)
  have obj_eq: "objs s' z = (if z = p then Some (ob\<lparr>dependencies := Some ?d\<rparr>) else objs s z)"
    for z by (simp add: s'_def)
  from st(1) p(1) have 1: "wf_alloc s'"
    by (auto simp: wf_alloc_def less_Suc_eq s'_def new_Dependency_def)
  from st(2) p(1) have 2: "wf_registry s'" by (auto simp: wf_registry_def s'_def)
  have 3: "wf_tree s' T"
    unfolding wf_tree_def
  proof (intro conjI allI impI)
    fix x ob' d' assume h: "objs s' x = Some ob'" "dependencies ob' = Some d'"
    show "\<exists>r. deps s' d' = Some r \<and> dep_A r = x \<and> parent r = None \<and> left r = None \<and>
             right r = None"
    proof (cases "x = p")
      case True
      with h have "d' = ?d" by (auto simp: obj_eq)
      with True show ?thesis by (simp add: new_Dependency_def dep_eq)
    next
      case False
      with h(1) have o: "objs s x = Some ob'" by (simp add: obj_eq)
      from wf_treeD1 [OF st(3) o h(2)] fresh show ?thesis
        by (cases "d' = ?d") (auto simp: dep_eq)
    qed
  next
    fix d' r' ob' assume h: "deps s' d' = Some r'" "d' \<notin> T" "objs s' (dep_A r') = Some ob'"
    show "dependencies ob' = Some d'"
    proof (cases "d' = ?d")
      case True
      with h(1) have "dep_A r' = p" by (auto simp: new_Dependency_def dep_eq)
      with h(3) True show ?thesis by (auto simp: obj_eq)
    next
      case False
      with h(1) have dr: "deps s d' = Some r'" by (simp add: dep_eq)
      show ?thesis
      proof (cases "dep_A r' = p")
        case True
        from wf_treeD2 [OF st(3) dr h(2)] True p show ?thesis by auto
      next
        case ne: False
        with h(3) have "objs s (dep_A r') = Some ob'" by (simp add: obj_eq)
        from wf_treeD2 [OF st(3) dr h(2) this] show ?thesis .
      qed
    qed
  qed
  have notin: "?d \<notin> set (L x k)" if "objs s x = Some ob0" for x k ob0
  proof
    assume "?d \<in> set (L x k)"
    from wf_lists_label [OF L(1) that this] fresh show False by simp
  qed
  have 4: "wf_lists s' L"
    unfolding wf_lists_def
  proof (intro allI impI)
    fix x ob' k assume o': "objs s' x = Some ob'"
    then obtain ob0 where o: "objs s x = Some ob0" and inc: "incoming ob' k = incoming ob0 k"
      using p(1) by (cases "x = p") (auto simp: incoming_def obj_eq)
    from wf_listsD [OF L(1) o, of k] have dl0: "dll (deps s) None (L x k) (incoming ob0 k)"
      and di0: "distinct (L x k)" by simp_all
    have cong: "\<exists>rz. deps s z = Some rz \<and> deps s' z = Some rz \<and> dep_B rz = x \<and> content rz = k"
      if z: "z \<in> set (L x k)" for z
    proof -
      from z notin [OF o] have "z \<noteq> ?d" by auto
      with wf_lists_label [OF L(1) o z] show ?thesis by (auto simp: dep_eq)
    qed
    have "dll (deps s') None (L x k) (incoming ob0 k)"
    proof (rule dll_fields_cong [OF dl0])
      fix z assume z: "z \<in> set (L x k)"
      from cong [OF z]
      show "\<exists>rz rz'. deps s z = Some rz \<and> deps s' z = Some rz' \<and> prev rz' = prev rz \<and>
          nxt rz' = nxt rz" by auto
    qed
    moreover have "\<forall>z\<in>set (L x k). \<exists>r. deps s' z = Some r \<and> dep_B r = x \<and> content r = k"
      using cong by auto
    ultimately show "dll (deps s') None (L x k) (incoming ob' k) \<and> distinct (L x k) \<and>
        (\<forall>d\<in>set (L x k). \<exists>r. deps s' d = Some r \<and> dep_B r = x \<and> content r = k)"
      using di0 inc by simp
  qed
  have 5: "wf_members s' L (insert ?d X)"
    unfolding wf_members_def
  proof (intro allI impI)
    fix z r' assume h: "deps s' z = Some r'"
    show "objs s' (dep_B r') \<noteq> None \<and>
        (z \<in> set (L (dep_B r') (content r')) \<longleftrightarrow> z \<notin> insert ?d X)"
    proof (cases "z = ?d")
      case True
      with h have e: "dep_B r' = q" by (auto simp: new_Dependency_def dep_eq)
      from q obtain oq where oq: "objs s q = Some oq" by auto
      from notin [OF oq] e True q show ?thesis by (simp add: obj_eq)
    next
      case False
      with h have "deps s z = Some r'" by (simp add: dep_eq)
      from wf_membersD [OF L(2) this] False show ?thesis by (simp add: obj_eq)
    qed
  qed
  from 1 2 3 4 5 have "wf_gen s' T (insert ?d X)" unfolding wf_gen_def by blast
  then show ?thesis by (simp add: s'_def)
qed

lemma splay_root:
  "deps s d = Some r \<Longrightarrow> parent r = None \<Longrightarrow> splay (Suc n) p d s = Inr s"
  by (simp add: read_dep_def)

section \<open>Object::addDependency on a well-formed registry\<close>

lemma Object_addDependency_new:
  assumes wf: "wf s" and p: "objs s p = Some ob" "dependencies ob = None"
    and q: "objs s q \<noteq> None"
  shows "\<exists>s'. Object_addDependency (Suc n) p q c s = Inr s' \<and> wf s' \<and>
     (\<exists>r' ob' oq'. deps s' (fresh_dep s) = Some r' \<and> dep_A r' = p \<and> dep_B r' = q \<and>
        content r' = c \<and> objs s' p = Some ob' \<and> dependencies ob' = Some (fresh_dep s) \<and>
        objs s' q = Some oq' \<and> incoming oq' c = Some (fresh_dep s))"
proof -
  let ?d = "fresh_dep s"
  let ?s2 = "s\<lparr>deps := (deps s)(?d \<mapsto> new_Dependency p q c None), fresh_dep := Suc ?d,
                objs := (objs s)(p \<mapsto> ob\<lparr>dependencies := Some ?d\<rparr>)\<rparr>"
  from wf p q have w2: "wf_gen ?s2 {} (insert ?d {})"
    unfolding wf_def by (rule wf_gen_new_edge)
  have d2: "deps ?s2 ?d = Some (new_Dependency p q c None)" by simp
  from link_wf [OF w2 d2] obtain s3 where
    s3: "link ?d ?s2 = Inr s3" "wf_gen s3 {} ({?d} - {?d})" "links_frame ?s2 s3"
     "\<exists>ob'. objs s3 q = Some ob' \<and> incoming ob' c = Some ?d"
    by (auto simp: new_Dependency_def)
  from links_frame_dep [OF s3(3) d2] obtain r3 where
    r3: "deps s3 ?d = Some r3" "dep_core r3 = dep_core (new_Dependency p q c None)" by blast
  then have r3': "dep_A r3 = p" "dep_B r3 = q" "content r3 = c" "parent r3 = None"
    by (simp_all add: dep_core_def new_Dependency_def)
  from links_frame_obj [OF s3(3), of p "ob\<lparr>dependencies := Some ?d\<rparr>"] obtain ob3 where
    ob3: "objs s3 p = Some ob3" "dependencies ob3 = Some ?d"
    by (auto simp: obj_core_def)
  from p s3(1) splay_root [OF r3(1) r3'(4), of n p]
  have "Object_addDependency (Suc n) p q c s = Inr s3"
    by (simp add: Object_addDependency_def read_obj_def new_dep_def modify_obj_def)
  moreover from s3(2) have "wf s3" by (simp add: wf_def)
  ultimately show ?thesis using r3 r3' ob3 s3(4) by auto
qed

lemma addDependency_search_found:
  "deps s d = Some r \<Longrightarrow> dep_B r = q \<Longrightarrow>
     addDependency_search (Suc n) q (Some d) par s = Inr (Some d, Some d)"
  by (simp add: read_dep_def)




section \<open>The public operations preserve the invariant\<close>

lemma wf_allocD3: "wf_alloc s \<Longrightarrow> deps s d = Some r \<Longrightarrow> dep_A r < fresh_obj s"
  unfolding wf_alloc_def by meson

lemma wf_registryD1: "wf_registry s \<Longrightarrow> lookup s A = Some p \<Longrightarrow> objs s p \<noteq> None"
  unfolding wf_registry_def by meson

lemma wf_registryD2:
  "wf_registry s \<Longrightarrow> lookup s A = Some p \<Longrightarrow> lookup s A' = Some p \<Longrightarrow> A = A'"
  unfolding wf_registry_def by meson


lemma wf_lookup_or_create:
  assumes wf: "wf s" and c: "lookup_or_create A s = (a, s1)"
  shows "wf s1 \<and> objs s1 a \<noteq> None"
proof (cases "lookup s A")
  case (Some p)
  with c have "a = p" "s1 = s" by (simp_all add: lookup_or_create_def)
  moreover from wf have "wf_registry s" by (simp add: wf_def wf_gen_def)
  from wf_registryD1 [OF this Some] have "objs s p \<noteq> None" .
  ultimately show ?thesis using wf by simp
next
  case None
  let ?a = "fresh_obj s"
  from None c have a: "a = ?a"
    and s1: "s1 = s\<lparr>lookup := (lookup s)(A \<mapsto> ?a), objs := (objs s)(?a \<mapsto> new_Object),
                    fresh_obj := Suc ?a\<rparr>"
    by (auto simp: lookup_or_create_def)
  from wf obtain L where L: "wf_lists s L" "wf_members s L {}"
    and st: "wf_alloc s" "wf_registry s" "wf_tree s {}"
    unfolding wf_def wf_gen_def by blast
  from st(1) have fresh: "objs s ?a = None" by (auto simp: wf_alloc_def)
  have src: "dep_A r \<noteq> ?a" if "deps s d = Some r" for d r
    using wf_allocD3 [OF st(1) that] by simp
  have dep_eq: "deps s1 = deps s" by (simp add: s1)
  have obj_eq: "objs s1 z = (if z = ?a then Some new_Object else objs s z)" for z
    by (simp add: s1)
  define L' where "L' = (\<lambda>q k. if q = ?a then [] else L q k)"
  from st(1) have 1: "wf_alloc s1" by (auto simp: wf_alloc_def s1 less_Suc_eq)
  have ne: "lookup s X \<noteq> Some ?a" for X
    using wf_registryD1 [OF st(2), of X ?a] fresh by auto
  have 2: "wf_registry s1"
    unfolding wf_registry_def
  proof (intro conjI allI impI)
    fix B p assume h: "lookup s1 B = Some p"
    show "objs s1 p \<noteq> None"
    proof (cases "B = A")
      case True
      with h show ?thesis by (simp add: s1)
    next
      case False
      with h have "lookup s B = Some p" by (simp add: s1)
      from wf_registryD1 [OF st(2) this] show ?thesis by (simp add: obj_eq)
    qed
  next
    fix B B' p assume h: "lookup s1 B = Some p" "lookup s1 B' = Some p"
    show "B = B'"
    proof (cases "B = A")
      case True
      with h(1) have "p = ?a" by (simp add: s1)
      with h(2) ne [of B'] True show ?thesis by (cases "B' = A") (simp_all add: s1)
    next
      case False
      with h(1) have l: "lookup s B = Some p" by (simp add: s1)
      with ne [of B] have "p \<noteq> ?a" by auto
      with h(2) have "lookup s B' = Some p" by (cases "B' = A") (simp_all add: s1)
      from wf_registryD2 [OF st(2) l this] show ?thesis .
    qed
  qed
  have 3: "wf_tree s1 {}"
    unfolding wf_tree_def
  proof (intro conjI allI impI)
    fix q ob' d assume h: "objs s1 q = Some ob'" "dependencies ob' = Some d"
    then have "q \<noteq> ?a" by (auto simp: obj_eq new_Object_def)
    with h(1) have "objs s q = Some ob'" by (simp add: obj_eq)
    from wf_treeD1 [OF st(3) this h(2)]
    show "\<exists>r. deps s1 d = Some r \<and> dep_A r = q \<and> parent r = None \<and> left r = None \<and>
             right r = None"
      by (simp add: dep_eq)
  next
    fix d r ob' assume h: "deps s1 d = Some r" "d \<notin> {}" "objs s1 (dep_A r) = Some ob'"
    from h(1) have dr: "deps s d = Some r" by (simp add: dep_eq)
    from src [OF dr] h(3) have "objs s (dep_A r) = Some ob'" by (simp add: obj_eq)
    from wf_treeD2 [OF st(3) dr _ this] show "dependencies ob' = Some d" by simp
  qed
  have 4: "wf_lists s1 L'"
    unfolding wf_lists_def
  proof (intro allI impI)
    fix q ob' k assume o': "objs s1 q = Some ob'"
    show "dll (deps s1) None (L' q k) (incoming ob' k) \<and> distinct (L' q k) \<and>
        (\<forall>d\<in>set (L' q k). \<exists>r. deps s1 d = Some r \<and> dep_B r = q \<and> content r = k)"
    proof (cases "q = ?a")
      case True
      with o' have "ob' = new_Object" by (simp add: obj_eq)
      with True show ?thesis by (simp add: L'_def new_Object_def incoming_def)
    next
      case False
      with o' have "objs s q = Some ob'" by (simp add: obj_eq)
      from wf_listsD [OF L(1) this, of k] False show ?thesis by (simp add: L'_def dep_eq)
    qed
  qed
  have 5: "wf_members s1 L' {}"
    unfolding wf_members_def
  proof (intro allI impI)
    fix d r assume "deps s1 d = Some r"
    then have dr: "deps s d = Some r" by (simp add: dep_eq)
    from wf_membersD [OF L(2) dr] fresh have "dep_B r \<noteq> ?a" by auto
    with wf_membersD [OF L(2) dr]
    show "objs s1 (dep_B r) \<noteq> None \<and> (d \<in> set (L' (dep_B r) (content r)) \<longleftrightarrow> d \<notin> {})"
      by (simp add: obj_eq L'_def)
  qed
  from 1 2 3 4 5 have "wf s1" unfolding wf_def wf_gen_def by blast
  with a obj_eq [of ?a] show ?thesis by simp
qed

lemma wf_erase:
  assumes wf: "wf s" and B: "lookup s B = Some p" and ob: "objs s p = Some ob"
    and empty: "incoming ob False = None" "incoming ob True = None"
  shows "wf (s\<lparr>lookup := (lookup s)(B := None), objs := (objs s)(p := None)\<rparr>)"
proof -
  define s' where "s' = s\<lparr>lookup := (lookup s)(B := None), objs := (objs s)(p := None)\<rparr>"
  from wf obtain L where L: "wf_lists s L" "wf_members s L {}"
    and st: "wf_alloc s" "wf_registry s" "wf_tree s {}"
    unfolding wf_def wf_gen_def by blast
  have dep_eq: "deps s' = deps s" by (simp add: s'_def)
  have obj_eq: "objs s' z = (if z = p then None else objs s z)" for z by (simp add: s'_def)
  have nil: "L p k = []" for k
    using wf_listsD [OF L(1) ob, of k] empty by (cases k; cases "L p k") auto
  from st(1) have 1: "wf_alloc s'" by (auto simp: wf_alloc_def s'_def)
  have 2: "wf_registry s'"
    unfolding wf_registry_def
  proof (intro conjI allI impI)
    fix A q assume h: "lookup s' A = Some q"
    then have ne: "A \<noteq> B" and l: "lookup s A = Some q"
      by (auto simp: s'_def split: if_splits)
    have "q \<noteq> p"
    proof
      assume "q = p"
      with l have "lookup s A = Some p" by simp
      from wf_registryD2 [OF st(2) this B] ne show False by simp
    qed
    with wf_registryD1 [OF st(2) l] show "objs s' q \<noteq> None" by (simp add: obj_eq)
  next
    fix A A' q assume "lookup s' A = Some q" "lookup s' A' = Some q"
    then have "lookup s A = Some q" "lookup s A' = Some q"
      by (auto simp: s'_def split: if_splits)
    from wf_registryD2 [OF st(2) this] show "A = A'" .
  qed
  have 3: "wf_tree s' {}"
    unfolding wf_tree_def
  proof (intro conjI allI impI)
    fix q ob' d assume h: "objs s' q = Some ob'" "dependencies ob' = Some d"
    then have "objs s q = Some ob'" by (simp add: obj_eq split: if_splits)
    from wf_treeD1 [OF st(3) this h(2)]
    show "\<exists>r. deps s' d = Some r \<and> dep_A r = q \<and> parent r = None \<and> left r = None \<and>
             right r = None"
      by (simp add: dep_eq)
  next
    fix d r ob' assume h: "deps s' d = Some r" "d \<notin> {}" "objs s' (dep_A r) = Some ob'"
    from h(1) have dr: "deps s d = Some r" by (simp add: dep_eq)
    from h(3) have "objs s (dep_A r) = Some ob'" by (simp add: obj_eq split: if_splits)
    from wf_treeD2 [OF st(3) dr _ this] show "dependencies ob' = Some d" by simp
  qed
  have 4: "wf_lists s' L"
    unfolding wf_lists_def
  proof (intro allI impI)
    fix q ob' k assume "objs s' q = Some ob'"
    then have "objs s q = Some ob'" by (simp add: obj_eq split: if_splits)
    from wf_listsD [OF L(1) this, of k]
    show "dll (deps s') None (L q k) (incoming ob' k) \<and> distinct (L q k) \<and>
        (\<forall>d\<in>set (L q k). \<exists>r. deps s' d = Some r \<and> dep_B r = q \<and> content r = k)"
      by (simp add: dep_eq)
  qed
  have 5: "wf_members s' L {}"
    unfolding wf_members_def
  proof (intro allI impI)
    fix d r assume "deps s' d = Some r"
    then have dr: "deps s d = Some r" by (simp add: dep_eq)
    from wf_membersD [OF L(2) dr] nil [of "content r"] have "dep_B r \<noteq> p" by auto
    with wf_membersD [OF L(2) dr]
    show "objs s' (dep_B r) \<noteq> None \<and> (d \<in> set (L (dep_B r) (content r)) \<longleftrightarrow> d \<notin> {})"
      by (simp add: obj_eq)
  qed
  from 1 2 3 4 5 have "wf s'" unfolding wf_def wf_gen_def by blast
  then show ?thesis by (simp add: s'_def)
qed

lemma no_edge_after_full_cascade:
  assumes wf: "wf s" and run: "invalidateIncoming n p False s = Inr s'"
  shows "\<exists>ob'. objs s' p = Some ob' \<and> incoming ob' False = None \<and> incoming ob' True = None"
proof -
  from run obtain m where n: "n = Suc m" by (cases n) auto
  with run obtain s1 where
    l1: "invalidateIncoming_loop m True p s = Inr s1"
    and l2: "invalidateIncoming_loop m False p s1 = Inr s'"
    by (auto simp: seq_eq_Inr)
  from invalidateIncoming_loop_exit [OF l1] obtain ob1 where
    ob1: "objs s1 p = Some ob1" "incoming ob1 True = None" by blast
  from invalidateIncoming_loop_exit [OF l2] obtain ob' where
    ob': "objs s' p = Some ob'" "incoming ob' False = None" by blast
  from wf_invalidateIncoming_loop [OF wf l1] have w1: "wf s1" .
  from wf_invalidateIncoming_loop [OF w1 l2] have w': "wf s'" .
  from w1 obtain L1 where L1: "wf_lists s1 L1" "wf_members s1 L1 {}"
    by (auto simp: wf_def wf_gen_def)
  from w' obtain L' where L': "wf_lists s' L'" "wf_members s' L' {}"
    by (auto simp: wf_def wf_gen_def)
  from wf_listsD [OF L1(1) ob1(1), of True] ob1(2) have nil1: "L1 p True = []"
    by (cases "L1 p True") auto
  have cf: "cascade_frame s1 s'" by (rule presD [OF cascade_frame_invalidateIncoming_loop l2])
  have "incoming ob' True = None"
  proof (cases "incoming ob' True")
    case (Some d)
    from wf_listsD [OF L'(1) ob'(1), of True] Some have "d \<in> set (L' p True)"
      by (cases "L' p True") auto
    from wf_lists_label [OF L'(1) ob'(1) this] obtain r' where
      r': "deps s' d = Some r'" "dep_B r' = p" "content r'" by auto
    from cascade_frameD3 [OF cf, of d] r'(1) obtain r1 where r1: "deps s1 d = Some r1"
      by (cases "deps s1 d") auto
    from cascade_frameD4 [OF cf r1 r'(1)] r'(2,3) have "dep_B r1 = p" "content r1" by simp_all
    with wf_membersD [OF L1(2) r1] nil1 show ?thesis by simp
  qed simp
  with ob' show ?thesis by simp
qed

lemma wf_markDestroyed:
  assumes wf: "wf s" and run: "markDestroyed n B s = Inr s'"
  shows "wf s'"
proof (cases "lookup s B")
  case None
  with run wf show ?thesis by (simp add: markDestroyed_def)
next
  case (Some p)
  with run obtain s1 where
    s1: "invalidateIncoming n p False s = Inr s1"
      "s' = s1\<lparr>lookup := (lookup s1)(B := None), objs := (objs s1)(p := None)\<rparr>"
    by (auto simp: markDestroyed_def seq_eq_Inr)
  from wf_invalidateIncoming [OF wf s1(1)] have w1: "wf s1" .
  from registry_invalidateIncoming [OF s1(1)] Some have l1: "lookup s1 B = Some p" by simp
  from no_edge_after_full_cascade [OF wf s1(1)] obtain ob' where
    "objs s1 p = Some ob'" "incoming ob' False = None" "incoming ob' True = None" by blast
  from wf_erase [OF w1 l1 this] s1(2) show ?thesis by simp
qed







section \<open>Valid flags and list membership\<close>


















section \<open>Dependency records across calls\<close>












section \<open>Fuel\<close>

text \<open>More fuel gives the same result.\<close>

lemma drop_dependencies_Suc:
  "drop_dependencies n d s = Inr s' \<Longrightarrow> drop_dependencies (Suc n) d s = Inr s'"
proof (induction n arbitrary: d s)
  case 0
  then show ?case by simp
next
  case (Suc n)
  show ?case
  proof (cases d)
    case None
    with Suc.prems show ?thesis by simp
  next
    case (Some x)
    from Suc.prems Some obtain r where r: "deps s x = Some r"
      by (auto simp: seq_eq_Inr read_dep_def split: option.splits)
    show ?thesis
    proof (cases "left r")
      case None
      from Suc.prems Some r None obtain s1 where
        s1: "unlink x s = Inr s1" "drop_dependencies n (right r) (delete_dep x s1) = Inr s'"
        by (auto simp: seq_eq_Inr read_dep_def)
      from Suc.IH [OF s1(2)] Some r None s1(1) show ?thesis
        by (simp only: drop_dependencies.simps(3) [of "Suc n"])
           (simp add: read_dep_def del: drop_dependencies.simps)
    next
      case l: (Some l)
      from Suc.prems Some r l obtain lr s1 s2 where
        h: "read_dep l s = Inr lr" "modify_dep x (\<lambda>z. z\<lparr>left := right lr\<rparr>) s = Inr s1"
          "modify_dep l (\<lambda>z. z\<lparr>right := Some x\<rparr>) s1 = Inr s2"
          "drop_dependencies n (Some l) s2 = Inr s'"
        by (auto simp: seq_eq_Inr read_dep_def)
      from Suc.IH [OF h(4)] Some r l h(1,2,3) show ?thesis
        by (simp only: drop_dependencies.simps(3) [of "Suc n"])
           (simp add: read_dep_def del: drop_dependencies.simps)
    qed
  qed
qed

lemma drop_dependencies_mono:
  "n \<le> m \<Longrightarrow> drop_dependencies n d s = Inr s' \<Longrightarrow> drop_dependencies m d s = Inr s'"
  by (induction m rule: dec_induct) (simp_all add: drop_dependencies_Suc del: drop_dependencies.simps)

lemma cascade_Suc:
  "(\<forall>k p s s'. invalidateIncoming_loop n k p s = Inr s' \<longrightarrow>
      invalidateIncoming_loop (Suc n) k p s = Inr s') \<and>
   (\<forall>p c s s'. invalidateIncoming n p c s = Inr s' \<longrightarrow>
      invalidateIncoming (Suc n) p c s = Inr s') \<and>
   (\<forall>p s s'. invalidate n p s = Inr s' \<longrightarrow> invalidate (Suc n) p s = Inr s')"
proof (induction n)
  case 0
  show ?case by simp
next
  case (Suc n)
  have ih_loop: "invalidateIncoming_loop n k p s = Inr s' \<Longrightarrow>
      invalidateIncoming_loop (Suc n) k p s = Inr s'" for k p s s'
    using Suc.IH by blast
  have ih_inc: "invalidateIncoming n p c s = Inr s' \<Longrightarrow>
      invalidateIncoming (Suc n) p c s = Inr s'" for p c s s'
    using Suc.IH by blast
  have ih_inv: "invalidate n p s = Inr s' \<Longrightarrow> invalidate (Suc n) p s = Inr s'" for p s s'
    using Suc.IH by blast
  have a: "invalidateIncoming_loop (Suc (Suc n)) k p s = Inr s'"
    if h: "invalidateIncoming_loop (Suc n) k p s = Inr s'" for k p s s'
    using h
  proof (cases rule: invalidateIncoming_loop_Suc_cases)
    case (finished ob)
    then show ?thesis by (simp add: read_obj_def)
  next
    case (step ob d r s1)
    from ih_inv [OF step(4)] ih_loop [OF step(5)] step(1,2,3) show ?thesis
      by (subst invalidateIncoming_loop.simps)
         (simp add: read_obj_def read_dep_def
            del: invalidateIncoming_loop.simps invalidate.simps)
  qed
  have b: "invalidateIncoming (Suc (Suc n)) p c s = Inr s'"
    if h: "invalidateIncoming (Suc n) p c s = Inr s'" for p c s s'
    using h
  proof (cases rule: invalidateIncoming_Suc_cases)
    case (1 s1)
    from ih_loop [OF 1(1)] have l1: "invalidateIncoming_loop (Suc n) True p s = Inr s1" .
    show ?thesis
    proof (cases c)
      case True
      with 1(2) l1 show ?thesis
        by (subst invalidateIncoming.simps) (simp del: invalidateIncoming_loop.simps)
    next
      case False
      with 1(2) have "invalidateIncoming_loop n False p s1 = Inr s'" by simp
      from ih_loop [OF this] l1 False show ?thesis
        by (subst invalidateIncoming.simps) (simp del: invalidateIncoming_loop.simps)
    qed
  qed
  have c: "invalidate (Suc (Suc n)) p s = Inr s'"
    if h: "invalidate (Suc n) p s = Inr s'" for p s s'
    using h
  proof (cases rule: invalidate_Suc_cases)
    case (1 ob s2 ob2)
    from drop_dependencies_Suc [OF 1(4)]
    have d: "drop_dependencies (Suc n) (dependencies ob2)
               (s2\<lparr>objs := (objs s2)(p \<mapsto> ob2\<lparr>dependencies := None\<rparr>)\<rparr>) = Inr s'" .
    show ?thesis
    proof (cases "isValid ob")
      case True
      with 1(2) have "invalidateIncoming n p True
          (s\<lparr>objs := (objs s)(p \<mapsto> ob\<lparr>isValid := False\<rparr>)\<rparr>) = Inr s2" by simp
      from ih_inc [OF this] 1(1,3) d True show ?thesis
        by (subst invalidate.simps)
           (simp add: read_obj_def modify_obj_def
              del: invalidateIncoming.simps drop_dependencies.simps)
    next
      case False
      with 1(2) have "s2 = s" by simp
      with 1(1,3) d False show ?thesis
        by (subst invalidate.simps)
           (simp add: read_obj_def modify_obj_def
              del: invalidateIncoming.simps drop_dependencies.simps)
    qed
  qed
  from a b c show ?case by blast
qed


lemma invalidateIncoming_mono:
  "n \<le> m \<Longrightarrow> invalidateIncoming n p c s = Inr s' \<Longrightarrow> invalidateIncoming m p c s = Inr s'"
proof (induction m rule: dec_induct)
  case base
  then show ?case .
next
  case (step m)
  from cascade_Suc [of m] step.IH [OF step.prems] show ?case by blast
qed


section \<open>The cascade returns\<close>







lemma drop_phase_returns:
  assumes wf: "wf s" and ob: "objs s p = Some ob"
  shows "\<exists>s'. drop_dependencies (Suc (Suc n)) (dependencies ob)
                (s\<lparr>objs := (objs s)(p \<mapsto> ob\<lparr>dependencies := None\<rparr>)\<rparr>) = Inr s'"
proof -
  let ?s3 = "s\<lparr>objs := (objs s)(p \<mapsto> ob\<lparr>dependencies := None\<rparr>)\<rparr>"
  from wf ob have w3: "wf_gen ?s3 (case dependencies ob of None \<Rightarrow> {} | Some d \<Rightarrow> insert d {}) {}"
    unfolding wf_def by (rule wf_gen_clear_dependencies)
  show ?thesis
  proof (cases "dependencies ob")
    case None
    then show ?thesis by simp
  next
    case (Some d)
    from wf have t: "wf_tree s {}" by (simp add: wf_def wf_gen_def)
    from wf_treeD1 [OF t ob Some] obtain r where
      r: "deps s d = Some r" "left r = None" "right r = None" by blast
    from r(1) have r3: "deps ?s3 d = Some r" by simp
    from w3 Some have w3': "wf_gen ?s3 {d} {}" by simp
    from unlink_wf [OF w3' r3] obtain s4 where s4: "unlink d ?s3 = Inr s4" by auto
    from Some r3 r(2,3) s4 show ?thesis by (simp add: read_dep_def)
  qed
qed


lemma invalidate_returns_valid:
  assumes wf: "wf s" and ob: "objs s p = Some ob" "isValid ob"
    and inc: "invalidateIncoming (Suc (Suc n)) p True
                (s\<lparr>objs := (objs s)(p \<mapsto> ob\<lparr>isValid := False\<rparr>)\<rparr>) = Inr s2"
  shows "\<exists>s'. invalidate (Suc (Suc (Suc n))) p s = Inr s'"
proof -
  let ?s1 = "s\<lparr>objs := (objs s)(p \<mapsto> ob\<lparr>isValid := False\<rparr>)\<rparr>"
  from wf ob(1) have w1: "wf ?s1" unfolding wf_def by (rule wf_gen_set_invalid)
  from wf_invalidateIncoming [OF w1 inc] have w2: "wf s2" .
  have "frame ?s1 s2"
    by (rule cascade_frameD1 [OF presD [OF cascade_frame_invalidateIncoming inc]])
  from frameD2 [OF this, of p] obtain ob2 where ob2: "objs s2 p = Some ob2" by auto
  from drop_phase_returns [OF w2 ob2, of n] obtain s' where
    "drop_dependencies (Suc (Suc n)) (dependencies ob2)
       (s2\<lparr>objs := (objs s2)(p \<mapsto> ob2\<lparr>dependencies := None\<rparr>)\<rparr>) = Inr s'" by blast
  with ob inc ob2 have "invalidate (Suc (Suc (Suc n))) p s = Inr s'"
    by (subst invalidate.simps)
       (simp add: read_obj_def modify_obj_def
          del: drop_dependencies.simps invalidateIncoming.simps)
  then show ?thesis by blast
qed






section \<open>Facts used by the claims\<close>







section \<open>The search loop never advances\<close>

lemma after_first_edge:
  "add_dependency 2 1 2 MemorySafety_init = Inr
     \<lparr>lookup = [1 \<mapsto> 0, 2 \<mapsto> 1],
      objs = [0 \<mapsto> \<lparr>dependencies = Some 0, incoming0 = None, incoming1 = None,
                     isValid = True\<rparr>,
              1 \<mapsto> \<lparr>dependencies = None, incoming0 = Some 0, incoming1 = None,
                     isValid = True\<rparr>],
      deps = [0 \<mapsto> \<lparr>dep_A = 0, dep_B = 1, content = False, parent = None, left = None,
                     right = None, prev = None, nxt = None\<rparr>],
      fresh_obj = 2, fresh_dep = 1, initialized = True, reported = []\<rparr>"
  by (simp add: op_defs prim_defs eval_nat_numeral fun_upd_twist)

text \<open>
  Claim C1 (code defect). The claim says every public operation runs to completion, and in
  particular that add-dependency(A,B) on a valid A with a non-empty outgoing tree ends its
  search and finds or inserts the node for B. The search loop of
  \<open>Object::addDependency\<close> does not move \<open>iter\<close> in the branches
  \<open>target < iter->B\<close> and \<open>target > iter->B\<close>: after add-dependency(1,2) on a fresh
  registry, the call add-dependency(1,3) does not return, whatever the fuel.
\<close>

theorem add_dependency_second_target_never_returns:
  "\<exists>s1. add_dependency 2 1 2 MemorySafety_init = Inr s1 \<and>
         (\<forall>n. add_dependency n 1 3 s1 = Inl OutOfFuel)"
proof -
  let ?s1 = "\<lparr>lookup = [1 \<mapsto> 0, 2 \<mapsto> 1],
      objs = [0 \<mapsto> \<lparr>dependencies = Some 0, incoming0 = None, incoming1 = None,
                     isValid = True\<rparr>,
              1 \<mapsto> \<lparr>dependencies = None, incoming0 = Some 0, incoming1 = None,
                     isValid = True\<rparr>],
      deps = [0 \<mapsto> \<lparr>dep_A = 0, dep_B = 1, content = False, parent = None, left = None,
                     right = None, prev = None, nxt = None\<rparr>],
      fresh_obj = 2, fresh_dep = 1, initialized = True, reported = []\<rparr>"
  have "add_dependency n 1 3 ?s1 = Inl OutOfFuel" for n
    by (simp add: add_dependency_def addDependency_def lookup_or_create_def read_obj_def
          Object_addDependency_stuck[where it=0])
  with after_first_edge show ?thesis by blast
qed

section \<open>Validation\<close>

text \<open>
  Claim C4. validate(A) invokes the violation handler, with exactly the address A, if and
  only if A has a record whose valid flag is false; it does so once per call, and a call on
  an unregistered or valid address invokes no handler: the list of handler calls grows by
  \<open>[A]\<close> in the first case and by nothing otherwise.
\<close>

theorem validate_reports_iff_registered_invalid:
  assumes "initialized s" and "node_live s A"
  shows "\<exists>s'. validate A s = Inr s' \<and>
           reported s' = reported s @ (if registered_invalid s A then [A] else [])"
  using assms
  by (auto simp: validate_def MemorySafety_validate_def read_obj_def violationHandler_def
        registered_invalid_def node_live_def split: option.splits)

lemma run_simple_destroy:
  "\<exists>s. run 5 [AddDependency 1 2, MarkDestroyed 2] MemorySafety_init = Inr s \<and>
       initialized s \<and> node_live s 1 \<and> registered_invalid s 1 \<and> reported s = []"
  by (simp add: op_defs prim_defs eval_nat_numeral node_live_def registered_invalid_def)

theorem validate_reports_iff_registered_invalid_witness:
  "\<exists>s s'. run 5 [AddDependency 1 2, MarkDestroyed 2] MemorySafety_init = Inr s \<and>
          initialized s \<and> node_live s 1 \<and> validate 1 s = Inr s' \<and> reported s' = [1]"
proof -
  from run_simple_destroy obtain s where
    s: "run 5 [AddDependency 1 2, MarkDestroyed 2] MemorySafety_init = Inr s"
      "initialized s" "node_live s 1" "registered_invalid s 1" "reported s = []"
    by blast
  from validate_reports_iff_registered_invalid [OF s(2) s(3)] s(4) s(5)
  obtain s' where "validate 1 s = Inr s'" "reported s' = [1]" by auto
  with s show ?thesis by blast
qed

text \<open>
  Claim C10. validate(A) does not change the engine state: the table, the object records,
  the dependency records, the allocator and the initialized flag are the same after the
  call; validate only reads the registry (and may call the handler).
\<close>

theorem validate_leaves_registry_unchanged:
  assumes "node_live s A"
  shows "\<exists>s'. validate A s = Inr s' \<and> lookup s' = lookup s \<and> objs s' = objs s \<and>
           deps s' = deps s \<and> fresh_obj s' = fresh_obj s \<and> fresh_dep s' = fresh_dep s \<and>
           initialized s' = initialized s"
  using assms
  by (auto simp: validate_def MemorySafety_validate_def read_obj_def violationHandler_def
        node_live_def split: option.splits)

theorem validate_leaves_registry_unchanged_witness:
  "\<exists>s s'. run 5 [AddDependency 1 2, MarkDestroyed 2] MemorySafety_init = Inr s \<and>
          node_live s 1 \<and> validate 1 s = Inr s' \<and> lookup s' = lookup s \<and>
          objs s' = objs s \<and> deps s' = deps s \<and> reported s' \<noteq> reported s"
proof -
  from run_simple_destroy obtain s where
    s: "run 5 [AddDependency 1 2, MarkDestroyed 2] MemorySafety_init = Inr s"
      "initialized s" "node_live s 1" "registered_invalid s 1" "reported s = []"
    by blast
  from validate_leaves_registry_unchanged [OF s(3)]
  obtain s' where s': "validate 1 s = Inr s'" "lookup s' = lookup s" "objs s' = objs s"
    "deps s' = deps s" by blast
  from s(2,4) s'(1) have "reported s' \<noteq> reported s"
    by (auto simp: validate_def MemorySafety_validate_def read_obj_def violationHandler_def
          registered_invalid_def split: option.splits if_splits)
  with s s' show ?thesis by blast
qed

section \<open>Lazy creation of object records\<close>

lemma Object_addDependency_first:
  assumes "objs s a = Some new_Object" "objs s b = Some new_Object"
  shows "\<exists>s'. Object_addDependency (Suc n) a b c s = Inr s'"
  using assms
  by (cases "a = b"; cases c)
     (simp_all add: Object_addDependency_def new_dep_def new_Dependency_def link_def prim_defs)

text \<open>
  Claim C3 (as amended). Object records are created lazily by the edge operations only:
  after add-dependency(A,B) or add-content-dependency(A,B) on two unregistered addresses
  both have a record (and the call returns, with any fuel of at least one); a
  mark-modified(X) on an unregistered address returns without creating anything.
\<close>

theorem records_are_created_by_edge_calls:
  assumes "initialized s"
  shows "(lookup s A = None \<and> lookup s B = None \<longrightarrow>
           (\<exists>s1 s2. add_dependency (Suc n) A B s = Inr s1 \<and> has_record s1 A \<and> has_record s1 B \<and>
                    add_content_dependency (Suc n) A B s = Inr s2 \<and>
                    has_record s2 A \<and> has_record s2 B)) \<and>
         (lookup s X = None \<longrightarrow> mark_modified n X s = Inr s)"
proof (intro conjI impI)
  assume u: "lookup s A = None \<and> lookup s B = None"
  obtain a s1 where c1: "lookup_or_create A s = (a, s1)" by (cases "lookup_or_create A s")
  obtain b s2 where c2: "lookup_or_create B s1 = (b, s2)" by (cases "lookup_or_create B s1")
  from c1 u have oa: "objs s1 a = Some new_Object"
    by (auto simp: lookup_or_create_def)
  from c1 c2 u have oa2: "objs s2 a = Some new_Object" and ob2: "objs s2 b = Some new_Object"
    by (auto simp: lookup_or_create_def split: option.splits if_splits)
  from Object_addDependency_first [OF oa2 ob2, of n False]
  obtain t1 where t1: "Object_addDependency (Suc n) a b False s2 = Inr t1" by blast
  from Object_addDependency_first [OF oa2 ob2, of n True]
  obtain t2 where t2: "Object_addDependency (Suc n) a b True s2 = Inr t2" by blast
  from c1 c2 oa ob2 t1 assms have r1: "add_dependency (Suc n) A B s = Inr t1"
    by (simp add: add_dependency_def addDependency_def read_obj_def new_Object_def)
  from c1 c2 oa ob2 t2 assms have r2: "add_content_dependency (Suc n) A B s = Inr t2"
    by (simp add: add_content_dependency_def addContentDependency_def read_obj_def new_Object_def)
  from u have uA: "lookup s A = None" and uB: "lookup s B = None" by simp_all
  from uA have ni: "\<not> registered_invalid s A" by (simp add: registered_invalid_def)
  from r1 assms have "addDependency (Suc n) A B s = Inr t1" by (simp add: add_dependency_def)
  from addDependency_source_recreated [OF this uA] addDependency_target_recreated [OF this uB]
  have h1: "has_record t1 A \<and> has_record t1 B" using ni by auto
  from r2 assms have "addContentDependency (Suc n) A B s = Inr t2"
    by (simp add: add_content_dependency_def)
  from addContentDependency_source_recreated [OF this uA]
    addContentDependency_target_recreated [OF this uB]
  have h2: "has_record t2 A \<and> has_record t2 B" using ni by auto
  from r1 r2 h1 h2
  show "\<exists>s1 s2. add_dependency (Suc n) A B s = Inr s1 \<and> has_record s1 A \<and> has_record s1 B \<and>
                    add_content_dependency (Suc n) A B s = Inr s2 \<and>
                    has_record s2 A \<and> has_record s2 B" by blast
next
  assume "lookup s X = None"
  then show "mark_modified n X s = Inr s"
    by (simp add: mark_modified_def markModified_def)
qed

theorem records_are_created_by_edge_calls_witness:
  "initialized MemorySafety_init \<and> lookup MemorySafety_init 1 = None \<and>
   lookup MemorySafety_init 2 = None \<and>
   (\<exists>s1 s2. add_dependency 1 1 2 MemorySafety_init = Inr s1 \<and> has_record s1 1 \<and>
            has_record s1 2 \<and> add_content_dependency 1 1 2 MemorySafety_init = Inr s2 \<and>
            has_record s2 1 \<and> has_record s2 2) \<and>
   mark_modified 0 2 MemorySafety_init = Inr MemorySafety_init"
proof -
  have i: "initialized MemorySafety_init" by (simp add: MemorySafety_init_def)
  have u: "lookup MemorySafety_init 1 = None" "lookup MemorySafety_init 2 = None"
    by (simp_all add: MemorySafety_init_def)
  from records_are_created_by_edge_calls [OF i, of 1 2 0 2] i u show ?thesis by simp
qed

text \<open>
  The claim C3 as stated says that mark-modified(X) on a never-registered address X
  creates a record for X. On a fresh registry mark-modified(7) leaves the state as it is,
  and 7 has no record.
\<close>

theorem mark_modified_creates_no_record:
  "mark_modified 1 7 MemorySafety_init = Inr MemorySafety_init \<and>
   \<not> has_record MemorySafety_init 7"
  by (simp add: mark_modified_def markModified_def MemorySafety_init_def has_record_def)

section \<open>Destroyed objects\<close>

text \<open>
  Claim C9 (as stated). The claim says that no later edge call naming B changes any state
  involving B. After add-dependency(1,2); mark-destroyed(2) the address 2 has no record; the call
  add-dependency(3,2) gives it one again.
\<close>

theorem destroyed_target_is_recreated:
  "\<not> has_record_after 2 (run 5 [AddDependency 1 2, MarkDestroyed 2] MemorySafety_init) \<and>
   has_record_after 2
     (run 5 [AddDependency 1 2, MarkDestroyed 2, AddDependency 3 2] MemorySafety_init)"
  by (simp add: op_defs prim_defs obs_defs eval_nat_numeral)

text \<open>
  Claim C2 (code defect). The claim says that mark-destroyed(B) releases every outgoing
  edge of B, so that no incoming list keeps a Dependency whose source record is gone.
  \<open>markDestroyed\<close> erases the record without dropping its outgoing tree: after
  add-dependency(1,2); mark-destroyed(1) the record of 1 (node 0) is gone, while the
  Dependency 0 with source node 0 is still live and still the head of the
  existence-incoming list of 2. A later mark-destroyed(2) then dereferences the dead node.
\<close>

theorem destroy_leaves_outgoing_edge_linked:
  "\<exists>s. run 5 [AddDependency 1 2, MarkDestroyed 1] MemorySafety_init = Inr s \<and>
       \<not> has_record s 1 \<and> objs s 0 = None \<and>
       (\<exists>ob r. lookup s 2 = Some 1 \<and> objs s 1 = Some ob \<and> incoming0 ob = Some 0 \<and>
               deps s 0 = Some r \<and> dep_A r = 0 \<and> dep_B r = 1) \<and>
       mark_destroyed 5 2 s = Inl InvalidPointer"
  by (simp add: op_defs prim_defs obs_defs eval_nat_numeral)


section \<open>The content cascade of mark-modified\<close>

text \<open>
  Why the cascade needs \<open>sources_live\<close> to return: after add-content-dependency(3,1);
  mark-destroyed(3) the Dependency of the erased object 3 is still on the content-incoming
  list of 1 (the defect of claim C2), and mark-modified(1) dereferences its source.
\<close>

lemma cascade_meets_erased_source:
  "run 8 [AddContentDependency 3 1, MarkDestroyed 3, MarkModified 1] MemorySafety_init =
     Inl InvalidPointer"
  by (simp add: op_defs prim_defs eval_nat_numeral)





section \<open>Edge calls on invalid objects\<close>




section \<open>Edge kinds\<close>






lemma addDependency_invalid_source:
  assumes "registered_invalid s X"
  shows "addDependency m X B s = Inr s" and "addContentDependency m X B s = Inr s"
proof -
  from assms obtain a oa where "lookup s X = Some a" "objs s a = Some oa" "\<not> isValid oa"
    by (auto simp: registered_invalid_def split: option.splits)
  then show "addDependency m X B s = Inr s" and "addContentDependency m X B s = Inr s"
    by (simp_all add: addDependency_def addContentDependency_def lookup_or_create_def
          read_obj_def)
qed

text \<open>An edge call whose source has no record returns, whatever the target is.\<close>

lemma fresh_source_returns:
  assumes wf: "wf s" and B: "lookup s B = None"
  shows "(\<exists>s'. addDependency (Suc m) B X s = Inr s') \<and>
         (\<exists>s'. addContentDependency (Suc (Suc (Suc m))) B X s = Inr s')"
proof -
  obtain a sa where c: "lookup_or_create B s = (a, sa)" by (cases "lookup_or_create B s")
  from wf_lookup_or_create [OF wf c] have wa: "wf sa" by simp
  from c B have a: "a = fresh_obj s" "objs sa a = Some new_Object" "fresh_obj sa = Suc a"
    by (auto simp: lookup_or_create_def)
  obtain b sb where c2: "lookup_or_create X sa = (b, sb)" by (cases "lookup_or_create X sa")
  from wf_lookup_or_create [OF wa c2] have wb: "wf sb" and lb: "objs sb b \<noteq> None"
    by simp_all
  from c2 a(2,3) have oa: "objs sb a = Some new_Object"
    by (auto simp: lookup_or_create_def split: option.splits)
  have va: "isValid new_Object" "dependencies new_Object = None"
    "incoming new_Object True = None"
    by (simp_all add: new_Object_def incoming_def)
  from lb obtain ob where ob: "objs sb b = Some ob" by auto
  from Object_addDependency_new [OF wb oa va(2) lb, of m False] obtain s' where
    "Object_addDependency (Suc m) a b False sb = Inr s'" by blast
  with c a(2) va(1) c2 have 1: "addDependency (Suc m) B X s = Inr s'"
    by (simp add: addDependency_def read_obj_def del: Object_addDependency_def)
  have 2: "\<exists>s'. addContentDependency (Suc (Suc (Suc m))) B X s = Inr s'"
  proof (cases "isValid ob")
    case True
    from Object_addDependency_new [OF wb oa va(2) lb, of "Suc (Suc m)" True] obtain s' where
      "Object_addDependency (Suc (Suc (Suc m))) a b True sb = Inr s'" by blast
    with c a(2) va(1) c2 ob True show ?thesis
      by (simp add: addContentDependency_def read_obj_def del: Object_addDependency_def)
  next
    case False
    have "invalidateIncoming (Suc (Suc m)) a True
            (sb\<lparr>objs := (objs sb)(a \<mapsto> new_Object\<lparr>isValid := False\<rparr>)\<rparr>) =
          Inr (sb\<lparr>objs := (objs sb)(a \<mapsto> new_Object\<lparr>isValid := False\<rparr>)\<rparr>)"
      by (simp add: read_obj_def new_Object_def incoming_def)
    from invalidate_returns_valid [OF wb oa va(1) this] obtain s' where
      "invalidate (Suc (Suc (Suc m))) a sb = Inr s'" by blast
    with c a(2) va(1) c2 ob False show ?thesis
      by (simp add: addContentDependency_def read_obj_def del: invalidate.simps)
  qed
  from 1 2 show ?thesis by blast
qed

section \<open>Edge calls after mark-destroyed\<close>

text \<open>
  Claim C9 (as amended). After mark-destroyed(B) the registry holds no record for B. A
  later add-dependency or add-content-dependency with B as its source that returns has
  created a record for B again, and in a well-formed registry such a call does return.
  With B as its target: if the source's record is invalid, the call returns and changes
  nothing; otherwise a call that returns has created a record for B again.
\<close>

theorem destroyed_object_is_recreated_by_edge_calls:
  assumes "initialized s" and "mark_destroyed n B s = Inr s1"
  shows "\<not> has_record s1 B \<and>
    (\<forall>m X s2. add_dependency m B X s1 = Inr s2 \<or> add_content_dependency m B X s1 = Inr s2
        \<longrightarrow> has_record s2 B) \<and>
    (wf s \<longrightarrow> (\<forall>m X. (\<exists>s2. add_dependency (Suc m) B X s1 = Inr s2) \<and>
                    (\<exists>s2. add_content_dependency (Suc (Suc (Suc m))) B X s1 = Inr s2))) \<and>
    (\<forall>m X. registered_invalid s1 X \<longrightarrow>
        add_dependency m X B s1 = Inr s1 \<and> add_content_dependency m X B s1 = Inr s1) \<and>
    (\<forall>m X s2. add_dependency m X B s1 = Inr s2 \<or> add_content_dependency m X B s1 = Inr s2
        \<longrightarrow> (if registered_invalid s1 X then s2 = s1 else has_record s2 B))"
proof -
  from assms have md: "markDestroyed n B s = Inr s1" by (simp add: mark_destroyed_def)
  then have u: "lookup s1 B = None" by (rule markDestroyed_unregisters)
  from assms have i: "initialized s1"
    by (auto simp: mark_destroyed_def markDestroyed_def seq_eq_Inr
          dest: registry_invalidateIncoming split: option.splits)
  from u have 1: "\<not> has_record s1 B" by (simp add: has_record_def)
  have 2: "has_record s2 B"
    if "add_dependency m B X s1 = Inr s2 \<or> add_content_dependency m B X s1 = Inr s2"
    for m X s2
  proof -
    from that i have "addDependency m B X s1 = Inr s2 \<or> addContentDependency m B X s1 = Inr s2"
      by (simp add: add_dependency_def add_content_dependency_def)
    then show ?thesis
      using addDependency_source_recreated [OF _ u] addContentDependency_source_recreated [OF _ u]
      by metis
  qed
  have 3: "(\<exists>s2. add_dependency (Suc m) B X s1 = Inr s2) \<and>
           (\<exists>s2. add_content_dependency (Suc (Suc (Suc m))) B X s1 = Inr s2)"
    if wf: "wf s" for m X
    using fresh_source_returns [OF wf_markDestroyed [OF wf md] u, of m X] i
    by (simp add: add_dependency_def add_content_dependency_def)
  have 4: "add_dependency m X B s1 = Inr s1 \<and> add_content_dependency m X B s1 = Inr s1"
    if "registered_invalid s1 X" for m X
    using addDependency_invalid_source [OF that, of m B] i
    by (simp add: add_dependency_def add_content_dependency_def)
  have 5: "if registered_invalid s1 X then s2 = s1 else has_record s2 B"
    if h: "add_dependency m X B s1 = Inr s2 \<or> add_content_dependency m X B s1 = Inr s2"
    for m X s2
  proof (cases "registered_invalid s1 X")
    case True
    with 4 [OF True, of m] h show ?thesis by auto
  next
    case False
    from h i have "addDependency m X B s1 = Inr s2 \<or> addContentDependency m X B s1 = Inr s2"
      by (simp add: add_dependency_def add_content_dependency_def)
    then have "has_record s2 B \<or> (registered_invalid s1 X \<and> s2 = s1)"
      using addDependency_target_recreated [OF _ u] addContentDependency_target_recreated [OF _ u]
      by metis
    with False show ?thesis by simp
  qed
  from 1 2 3 4 5 show ?thesis by (intro conjI allI impI) blast+
qed

lemma run_destroy_then_add:
  "\<exists>s s1 s2 s3. run 3 [AddDependency 1 2] MemorySafety_init = Inr s \<and> initialized s \<and>
     mark_destroyed 5 2 s = Inr s1 \<and> registered_invalid s1 1 \<and> \<not> registered_invalid s1 3 \<and>
     add_dependency 3 3 2 s1 = Inr s2 \<and> add_content_dependency 3 2 3 s1 = Inr s3"
  by (simp add: op_defs prim_defs eval_nat_numeral registered_invalid_def)

theorem destroyed_object_is_recreated_by_edge_calls_witness:
  "\<exists>s s1 s2 s3. run 3 [AddDependency 1 2] MemorySafety_init = Inr s \<and> initialized s \<and>
     mark_destroyed 5 2 s = Inr s1 \<and> \<not> has_record s1 2 \<and>
     \<not> registered_invalid s1 3 \<and> add_dependency 3 3 2 s1 = Inr s2 \<and> has_record s2 2 \<and>
     registered_invalid s1 1 \<and> add_content_dependency 3 1 2 s1 = Inr s1 \<and>
     add_content_dependency 3 2 3 s1 = Inr s3 \<and> has_record s3 2"
proof -
  from run_destroy_then_add obtain s s1 s2 s3 where
    r: "run 3 [AddDependency 1 2] MemorySafety_init = Inr s" "initialized s"
      "mark_destroyed 5 2 s = Inr s1" "registered_invalid s1 1" "\<not> registered_invalid s1 3"
      "add_dependency 3 3 2 s1 = Inr s2" "add_content_dependency 3 2 3 s1 = Inr s3"
    by blast
  note t = destroyed_object_is_recreated_by_edge_calls [OF r(2) r(3)]
  from t have a: "\<not> has_record s1 2" by blast
  from t r(5,6) have b: "has_record s2 2" by meson
  from t r(4) have c: "add_content_dependency 3 1 2 s1 = Inr s1" by blast
  from t r(7) have d: "has_record s3 2" by blast
  from r a b c d show ?thesis by blast
qed

section \<open>Scenarios from a fresh registry\<close>

text \<open>
  Claim C8. From a fresh registry, for three distinct objects A, B and C, the calls
  add-content-dependency(A,B); add-content-dependency(C,A) return a state in which A, B
  and C have valid records, A has a content edge to B and C has a content edge to A, and
  validate reports neither A nor C. mark-destroyed(B) in that state returns a state in
  which B has no record, A and C are invalid and have no outgoing edge, and validate(A)
  and validate(C) call the violation handler with A and with C: destroying B invalidates
  A, and A's invalidation cascades through A's content-incoming list to C. This holds for
  every fuel from 8 on.
\<close>

theorem destroy_cascades_through_content:
  assumes "A \<noteq> B" and "A \<noteq> C" and "B \<noteq> C"
  shows "\<exists>s0 s.
     run (n + 8) [AddContentDependency A B, AddContentDependency C A] MemorySafety_init =
       Inr s0 \<and>
     has_record s0 A \<and> has_record s0 B \<and> has_record s0 C \<and>
     \<not> registered_invalid s0 A \<and> \<not> registered_invalid s0 B \<and> \<not> registered_invalid s0 C \<and>
     edge_kind s0 A B = Some True \<and> edge_kind s0 C A = Some True \<and>
     validate A s0 = Inr s0 \<and> validate C s0 = Inr s0 \<and>
     mark_destroyed (n + 8) B s0 = Inr s \<and>
     run (n + 8) [AddContentDependency A B, AddContentDependency C A, MarkDestroyed B]
       MemorySafety_init = Inr s \<and>
     \<not> has_record s B \<and> registered_invalid s A \<and> registered_invalid s C \<and>
     edge_kind s A B = None \<and> edge_kind s C A = None \<and>
     (\<exists>s'. validate A s = Inr s' \<and> reported s' = [A]) \<and>
     (\<exists>s'. validate C s = Inr s' \<and> reported s' = [C])"
  using assms
  by (simp add: op_defs prim_defs eval_nat_numeral registered_invalid_def has_record_def
        edge_kind_def)

theorem destroy_cascades_through_content_witness:
  "\<exists>s0 s. run 8 [AddContentDependency 1 2, AddContentDependency 3 1] MemorySafety_init = Inr s0 \<and>
     \<not> registered_invalid s0 1 \<and> \<not> registered_invalid s0 3 \<and>
     mark_destroyed 8 2 s0 = Inr s \<and> registered_invalid s 1 \<and> registered_invalid s 3 \<and>
     (\<exists>s'. validate 3 s = Inr s' \<and> reported s' = [3])"
proof -
  from destroy_cascades_through_content [of 1 2 3 0] obtain s0 s where
    "run 8 [AddContentDependency 1 2, AddContentDependency 3 1] MemorySafety_init = Inr s0"
    "\<not> registered_invalid s0 1" "\<not> registered_invalid s0 3"
    "mark_destroyed 8 2 s0 = Inr s" "registered_invalid s 1" "registered_invalid s 3"
    "\<exists>s'. validate 3 s = Inr s' \<and> reported s' = [3]"
    by auto
  then show ?thesis by blast
qed

end
